theory Spec2Isabelle
  imports Main "HOL-Library.Word" "HOL-Library.AList"
begin

unbundle bit_operations_syntax

section \<open>The Dune archive: a paged record store\<close>

text \<open>
  A shallow embedding of \<^verbatim>\<open>archive.py\<close> (class \<^verbatim>\<open>DuneArchive\<close>).
  Bytes are \<open>8 word\<close>, Python integers are \<open>int\<close>, offsets and lengths are \<open>nat\<close>.
  A Python \<^verbatim>\<open>str\<close> is a \<open>string\<close> whose characters are read as the code points
  0..255; strings with code points above 255 are outside the model.
  An exception is a value \<open>Inl e\<close>; the files on disk are a map from path to contents.
\<close>

subsection \<open>Constants of the class\<close>

type_synonym byte = "8 word"

datatype error = StructError | IndexError | ValueError | KeyError | UnicodeDecodeError | Unrepresentable

definition PAGE_SIZE :: nat where "PAGE_SIZE = 4096"
definition MAX_RECORDS_PER_PAGE :: nat where "MAX_RECORDS_PER_PAGE = 10"
definition MAX_PAGES_PER_FILE :: nat where "MAX_PAGES_PER_FILE = 100"
definition MAX_STRING_LENGTH :: nat where "MAX_STRING_LENGTH = 100"

subsection \<open>Python built-ins used by the source\<close>

text \<open>\<^verbatim>\<open>xs[a:b]\<close> for \<open>0 \<le> a \<le> b\<close>: both ends are clipped to the length.\<close>

definition slice :: "'a list \<Rightarrow> nat \<Rightarrow> nat \<Rightarrow> 'a list" where
  "slice xs a b = take (b - a) (drop a xs)"

text \<open>\<^verbatim>\<open>xs[i]\<close> for a Python integer \<open>i\<close>: positions from \<open>-len(xs)\<close> to \<open>len(xs) - 1\<close>
  exist, the negative ones being read from the right; any other raises IndexError.\<close>

definition py_index :: "'a list \<Rightarrow> int \<Rightarrow> error + 'a" where
  "py_index xs i =
     (if 0 \<le> i \<and> i < int (length xs) then Inr (xs ! nat i)
      else if i < 0 \<and> - int (length xs) \<le> i then Inr (xs ! nat (int (length xs) + i))
      else Inl IndexError)"

text \<open>
  \<^verbatim>\<open>buf[a:a+len(ys)] = ys\<close> on a bytearray: the slice is clipped to the buffer, so an
  offset beyond the end appends and the buffer grows.
\<close>

definition slice_assign :: "'a list \<Rightarrow> nat \<Rightarrow> 'a list \<Rightarrow> 'a list" where
  "slice_assign buf a ys = take a buf @ ys @ drop (a + length ys) buf"

text \<open>\<^verbatim>\<open>struct.pack\<close> and \<^verbatim>\<open>struct.unpack\<close>, little-endian, for the formats
  \<^verbatim>\<open>I\<close> (unsigned 32 bit), \<^verbatim>\<open>i\<close> (signed 32 bit) and \<^verbatim>\<open>B\<close> (one byte).\<close>

definition le_bytes4 :: "nat \<Rightarrow> byte list" where
  "le_bytes4 n = [of_nat (n mod 256), of_nat (n div 256 mod 256),
                  of_nat (n div 65536 mod 256), of_nat (n div 16777216 mod 256)]"

definition le_value :: "byte list \<Rightarrow> nat" where
  "le_value bs = foldr (\<lambda>b acc. unat b + 256 * acc) bs 0"

definition pack_I :: "int \<Rightarrow> error + byte list" where
  "pack_I n = (if 0 \<le> n \<and> n < 2 ^ 32 then Inr (le_bytes4 (nat n)) else Inl StructError)"

definition unpack_I :: "byte list \<Rightarrow> error + int" where
  "unpack_I bs = (if length bs = 4 then Inr (int (le_value bs)) else Inl StructError)"

definition pack_i :: "int \<Rightarrow> error + byte list" where
  "pack_i n = (if - (2 ^ 31) \<le> n \<and> n < 2 ^ 31 then Inr (le_bytes4 (nat (n mod 2 ^ 32)))
               else Inl StructError)"

definition unpack_i :: "byte list \<Rightarrow> error + int" where
  "unpack_i bs =
     (if length bs = 4
      then (let u = int (le_value bs) in Inr (if u < 2 ^ 31 then u else u - 2 ^ 32))
      else Inl StructError)"

definition unpack_B :: "byte list \<Rightarrow> error + int" where
  "unpack_B bs = (if length bs = 1 then Inr (int (le_value bs)) else Inl StructError)"

text \<open>Characters: \<^verbatim>\<open>ord\<close>, the classes of the two regular expressions, and the
  characters \<^verbatim>\<open>int()\<close> strips.\<close>

definition ord :: "char \<Rightarrow> nat" where
  "ord c = of_char c"

definition NUL :: char where "NUL = CHR 0x00"
definition NEWLINE :: char where "NEWLINE = CHR 0x0A"

definition is_digit :: "char \<Rightarrow> bool" where
  "is_digit c = (48 \<le> ord c \<and> ord c \<le> 57)"

definition is_letter :: "char \<Rightarrow> bool" where
  "is_letter c = ((65 \<le> ord c \<and> ord c \<le> 90) \<or> (97 \<le> ord c \<and> ord c \<le> 122))"

definition is_alnum :: "char \<Rightarrow> bool" where
  "is_alnum c = (is_letter c \<or> is_digit c)"

definition is_space :: "char \<Rightarrow> bool" where
  "is_space c = ((9 \<le> ord c \<and> ord c \<le> 13) \<or> ord c = 32 \<or> ord c = 133 \<or> ord c = 160)"

text \<open>\<^verbatim>\<open>s.ljust(n, '\0')\<close> and \<^verbatim>\<open>s.rstrip('\0')\<close>.\<close>

definition ljust :: "string \<Rightarrow> nat \<Rightarrow> string" where
  "ljust s n = s @ replicate (n - length s) NUL"

definition rstrip_nul :: "string \<Rightarrow> string" where
  "rstrip_nul s = rev (dropWhile (\<lambda>c. c = NUL) (rev s))"

text \<open>\<^verbatim>\<open>s.encode('utf-8')\<close>: one byte below 128, two bytes for 128..255.\<close>

definition encode_char :: "char \<Rightarrow> byte list" where
  "encode_char c =
     (if ord c < 128 then [of_nat (ord c)]
      else [of_nat (192 + ord c div 64), of_nat (128 + ord c mod 64)])"

definition utf8_encode :: "string \<Rightarrow> byte list" where
  "utf8_encode s = concat (map encode_char s)"

text \<open>
  \<^verbatim>\<open>bs.decode('utf-8')\<close>. A byte below 128 is one character; the lead bytes 0xC2 and 0xC3
  with a continuation byte give the characters 128..255. Python raises
  UnicodeDecodeError on a stray continuation byte, on the lead bytes 0xC0, 0xC1 and
  0xF5..0xFF and on a missing continuation byte. Any other sequence would give a code
  point above 255, which \<open>string\<close> cannot hold: the model stops with \<open>Unrepresentable\<close>.
\<close>

fun utf8_decode :: "byte list \<Rightarrow> error + string" where
  "utf8_decode [] = Inr []"
| "utf8_decode (b # bs) =
     (if unat b < 128 then
        (case utf8_decode bs of Inl e \<Rightarrow> Inl e | Inr s \<Rightarrow> Inr (char_of (unat b) # s))
      else if unat b < 194 \<or> 245 \<le> unat b then Inl UnicodeDecodeError
      else if 196 \<le> unat b then Inl Unrepresentable
      else (case bs of
              [] \<Rightarrow> Inl UnicodeDecodeError
            | c # cs \<Rightarrow>
                if 128 \<le> unat c \<and> unat c < 192 then
                  (case utf8_decode cs of
                     Inl e \<Rightarrow> Inl e
                   | Inr s \<Rightarrow> Inr (char_of ((unat b - 192) * 64 + (unat c - 128)) # s))
                else Inl UnicodeDecodeError))"

text \<open>\<^verbatim>\<open>str(n)\<close> for an integer: the canonical decimal form.\<close>

definition digit_char :: "nat \<Rightarrow> char" where
  "digit_char d = char_of (48 + d)"

function str_nat :: "nat \<Rightarrow> string" where
  "str_nat n = (if n < 10 then [digit_char n] else str_nat (n div 10) @ [digit_char (n mod 10)])"
  by pat_completeness auto
termination
  by (relation "measure id") auto

declare str_nat.simps [simp del]

definition str_int :: "int \<Rightarrow> string" where
  "str_int i = (if i < 0 then CHR ''-'' # str_nat (nat (- i)) else str_nat (nat i))"

text \<open>
  \<^verbatim>\<open>int(s)\<close> in base 10: white space is stripped on both sides, one sign is allowed,
  then come decimal digits with single underscores between digits. Leading zeros are
  accepted. More than 4300 digits raise ValueError (the default limit of CPython 3.11).
\<close>

definition strip :: "string \<Rightarrow> string" where
  "strip s = rev (dropWhile is_space (rev (dropWhile is_space s)))"

fun digits_ok :: "string \<Rightarrow> bool" where
  "digits_ok [] = False"
| "digits_ok [c] = is_digit c"
| "digits_ok (c # d # r) =
     (is_digit c \<and> (if d = CHR ''_'' then digits_ok r else digits_ok (d # r)))"

definition digits_value :: "string \<Rightarrow> nat" where
  "digits_value s = foldl (\<lambda>acc c. 10 * acc + (ord c - 48)) 0 s"

definition parse_unsigned :: "string \<Rightarrow> error + int" where
  "parse_unsigned s =
     (let ds = filter (\<lambda>c. c \<noteq> CHR ''_'') s
      in if digits_ok s \<and> length ds \<le> 4300 then Inr (int (digits_value ds))
         else Inl ValueError)"

definition py_int :: "string \<Rightarrow> error + int" where
  "py_int s =
     (case strip s of
        [] \<Rightarrow> Inl ValueError
      | c # r \<Rightarrow>
          if c = CHR ''-'' then
            (case parse_unsigned r of Inl e \<Rightarrow> Inl e | Inr n \<Rightarrow> Inr (- n))
          else if c = CHR ''+'' then parse_unsigned r
          else parse_unsigned (c # r))"

subsection \<open>Catalog and disk\<close>

record type_info =
  type_fields :: "(string \<times> string) list"
  primary_key_order :: int
  record_size :: nat

text \<open>
  The catalog is a Python dict: an association list in insertion order, updated in place.
  The disk maps a path to the bytes of the file there.
\<close>

record archive =
  catalog :: "(string \<times> type_info) list"
  disk :: "string \<rightharpoonup> byte list"

definition catalog_file :: string where
  "catalog_file = ''catalog.dat''"

definition calculate_record_size :: "(string \<times> string) list \<Rightarrow> nat" where
  "calculate_record_size fs =
     foldl (\<lambda>size (field_name, field_type).
              if field_type = ''int'' then size + 4
              else if field_type = ''str'' then size + MAX_STRING_LENGTH
              else size) 1 fs"

definition get_data_file_path :: "string \<Rightarrow> string" where
  "get_data_file_path type_name = type_name @ ''.dat''"

subsection \<open>Loading and saving the catalog\<close>

text \<open>A length-prefixed string at \<open>offset\<close>: the string and the offset after it.\<close>

definition read_string :: "byte list \<Rightarrow> nat \<Rightarrow> error + (string \<times> nat)" where
  "read_string data offset =
     (case unpack_I (slice data offset (offset + 4)) of
        Inl e \<Rightarrow> Inl e
      | Inr n \<Rightarrow>
          (case utf8_decode (slice data (offset + 4) (offset + 4 + nat n)) of
             Inl e \<Rightarrow> Inl e
           | Inr s \<Rightarrow> Inr (s, offset + 4 + nat n)))"

fun read_fields ::
  "byte list \<Rightarrow> nat \<Rightarrow> nat \<Rightarrow> (string \<times> string) list
     \<Rightarrow> error + ((string \<times> string) list \<times> nat)" where
  "read_fields data offset 0 acc = Inr (acc, offset)"
| "read_fields data offset (Suc n) acc =
     (case read_string data offset of
        Inl e \<Rightarrow> Inl e
      | Inr (field_name, offset1) \<Rightarrow>
          (case read_string data offset1 of
             Inl e \<Rightarrow> Inl e
           | Inr (field_type, offset2) \<Rightarrow>
               read_fields data offset2 n (acc @ [(field_name, field_type)])))"

definition read_type :: "byte list \<Rightarrow> nat \<Rightarrow> error + (string \<times> type_info \<times> nat)" where
  "read_type data offset =
     (case read_string data offset of
        Inl e \<Rightarrow> Inl e
      | Inr (type_name, offset1) \<Rightarrow>
          (case unpack_I (slice data offset1 (offset1 + 4)) of
             Inl e \<Rightarrow> Inl e
           | Inr num_fields \<Rightarrow>
               (case unpack_I (slice data (offset1 + 4) (offset1 + 8)) of
                  Inl e \<Rightarrow> Inl e
                | Inr pk \<Rightarrow>
                    (case read_fields data (offset1 + 8) (nat num_fields) [] of
                       Inl e \<Rightarrow> Inl e
                     | Inr (fs, offset2) \<Rightarrow>
                         Inr (type_name,
                              \<lparr>type_fields = fs, primary_key_order = pk,
                               record_size = calculate_record_size fs\<rparr>,
                              offset2)))))"

lemma read_string_offset: "read_string data offset = Inr (s, offset') \<Longrightarrow> offset < offset'"
  by (auto simp: read_string_def split: sum.splits)

lemma read_fields_offset: "read_fields data offset n acc = Inr (fs, offset') \<Longrightarrow> offset \<le> offset'"
proof (induction n arbitrary: offset acc)
  case 0
  then show ?case by simp
next
  case (Suc n)
  then show ?case
    by (fastforce split: sum.splits dest: read_string_offset)
qed

lemma read_type_offset: "read_type data offset = Inr (name, ti, offset') \<Longrightarrow> offset < offset'"
  by (fastforce simp: read_type_def split: sum.splits dest: read_string_offset read_fields_offset)

text \<open>
  The loop of \<^verbatim>\<open>_load_catalog\<close>. Every type read completely is put into the catalog at
  once; the bare \<^verbatim>\<open>except: pass\<close> ends the loop at the first exception and keeps the
  catalog as it is then.
\<close>

function load_loop ::
  "byte list \<Rightarrow> nat \<Rightarrow> (string \<times> type_info) list \<Rightarrow> (string \<times> type_info) list" where
  "load_loop data offset cat =
     (if offset < length data then
        (case read_type data offset of
           Inl e \<Rightarrow> cat
         | Inr (type_name, ti, offset') \<Rightarrow>
             load_loop data offset' (AList.update type_name ti cat))
      else cat)"
  by pat_completeness auto
termination
  by (relation "measure (\<lambda>(data, offset, cat). length data - offset)")
     (auto dest: read_type_offset)

declare load_loop.simps [simp del]

definition load_catalog :: "(string \<rightharpoonup> byte list) \<Rightarrow> (string \<times> type_info) list" where
  "load_catalog d =
     (case d catalog_file of
        None \<Rightarrow> []
      | Some data \<Rightarrow> if data \<noteq> [] then load_loop data 0 [] else [])"

text \<open>The constructor: an empty catalog, then \<^verbatim>\<open>_load_catalog\<close>.\<close>

definition init :: "(string \<rightharpoonup> byte list) \<Rightarrow> archive" where
  "init d = \<lparr>catalog = load_catalog d, disk = d\<rparr>"




subsection \<open>Page headers and the record codec\<close>

definition create_page_header :: "int \<Rightarrow> int \<Rightarrow> int \<Rightarrow> error + byte list" where
  "create_page_header page_number num_records bitmap =
     (case pack_I page_number of
        Inl e \<Rightarrow> Inl e
      | Inr b1 \<Rightarrow>
          (case pack_I num_records of
             Inl e \<Rightarrow> Inl e
           | Inr b2 \<Rightarrow>
               (case pack_I bitmap of Inl e \<Rightarrow> Inl e | Inr b3 \<Rightarrow> Inr (b1 @ b2 @ b3))))"

definition parse_page_header :: "byte list \<Rightarrow> error + (int \<times> int \<times> int)" where
  "parse_page_header header_data =
     (let h = slice header_data 0 12
      in if length h = 12
         then Inr (int (le_value (slice h 0 4)), int (le_value (slice h 4 8)),
                   int (le_value (slice h 8 12)))
         else Inl StructError)"

text \<open>
  The loop of \<^verbatim>\<open>_serialize_record\<close> over \<^verbatim>\<open>enumerate(fields)\<close>; a field whose type
  is neither \<^verbatim>\<open>int\<close> nor \<^verbatim>\<open>str\<close> adds nothing.
\<close>

fun serialize_fields ::
  "(string \<times> string) list \<Rightarrow> nat \<Rightarrow> string list \<Rightarrow> byte list \<Rightarrow> error + byte list" where
  "serialize_fields [] i values record_data = Inr record_data"
| "serialize_fields ((field_name, field_type) # rest) i values record_data =
     (if field_type = ''int'' then
        (case py_index values (int i) of
           Inl e \<Rightarrow> Inl e
         | Inr v \<Rightarrow>
             (case py_int v of
                Inl e \<Rightarrow> Inl e
              | Inr value \<Rightarrow>
                  (case pack_i value of
                     Inl e \<Rightarrow> Inl e
                   | Inr b \<Rightarrow> serialize_fields rest (i + 1) values (record_data @ b))))
      else if field_type = ''str'' then
        (case py_index values (int i) of
           Inl e \<Rightarrow> Inl e
         | Inr v \<Rightarrow>
             (let value = slice v 0 (MAX_STRING_LENGTH - 1);
                  padded_value = ljust value MAX_STRING_LENGTH
              in serialize_fields rest (i + 1) values (record_data @ utf8_encode padded_value)))
      else serialize_fields rest (i + 1) values record_data)"

definition serialize_record :: "archive \<Rightarrow> string \<Rightarrow> string list \<Rightarrow> error + byte list" where
  "serialize_record a type_name values =
     (case map_of (catalog a) type_name of
        None \<Rightarrow> Inl KeyError
      | Some ti \<Rightarrow> serialize_fields (type_fields ti) 0 values [1])"

fun deserialize_fields ::
  "(string \<times> string) list \<Rightarrow> byte list \<Rightarrow> nat \<Rightarrow> string list \<Rightarrow> error + string list" where
  "deserialize_fields [] record_data offset values = Inr values"
| "deserialize_fields ((field_name, field_type) # rest) record_data offset values =
     (if field_type = ''int'' then
        (case unpack_i (slice record_data offset (offset + 4)) of
           Inl e \<Rightarrow> Inl e
         | Inr value \<Rightarrow>
             deserialize_fields rest record_data (offset + 4) (values @ [str_int value]))
      else if field_type = ''str'' then
        (case utf8_decode (slice record_data offset (offset + MAX_STRING_LENGTH)) of
           Inl e \<Rightarrow> Inl e
         | Inr s \<Rightarrow>
             deserialize_fields rest record_data (offset + MAX_STRING_LENGTH)
               (values @ [rstrip_nul s]))
      else deserialize_fields rest record_data offset values)"

text \<open>\<open>Inr None\<close> is the Python \<^verbatim>\<open>None\<close> returned for a validity byte 0.\<close>

definition deserialize_record ::
  "archive \<Rightarrow> string \<Rightarrow> byte list \<Rightarrow> error + string list option" where
  "deserialize_record a type_name record_data =
     (case map_of (catalog a) type_name of
        None \<Rightarrow> Inl KeyError
      | Some ti \<Rightarrow>
          (case unpack_B (slice record_data 0 1) of
             Inl e \<Rightarrow> Inl e
           | Inr validity \<Rightarrow>
               if validity = 0 then Inr None
               else (case deserialize_fields (type_fields ti) record_data 1 [] of
                       Inl e \<Rightarrow> Inl e
                     | Inr values \<Rightarrow> Inr (Some values))))"

subsection \<open>The page store\<close>

definition load_page ::
  "archive \<Rightarrow> string \<Rightarrow> nat \<Rightarrow> error + (byte list option \<times> int \<times> int)" where
  "load_page a type_name page_number =
     (case disk a (get_data_file_path type_name) of
        None \<Rightarrow> Inr (None, 0, 0)
      | Some content \<Rightarrow>
          (let page_offset = page_number * PAGE_SIZE;
               page_data = slice content page_offset (page_offset + PAGE_SIZE)
           in if length page_data < 12 then Inr (None, 0, 0)
              else (case parse_page_header page_data of
                      Inl e \<Rightarrow> Inl e
                    | Inr (page_num, num_records, bitmap) \<Rightarrow>
                        Inr (Some page_data, num_records, bitmap))))"

text \<open>
  \<^verbatim>\<open>_save_page\<close>: the file is created or extended with zero bytes up to the end of the
  page, then \<open>page_data\<close> is written at the page's offset, over what is there and beyond
  the end of the file when it is longer than what is left.
\<close>

definition save_page :: "archive \<Rightarrow> string \<Rightarrow> nat \<Rightarrow> byte list \<Rightarrow> archive" where
  "save_page a type_name page_number page_data =
     (let file_path = get_data_file_path type_name;
          required_size = (page_number + 1) * PAGE_SIZE;
          content = (case disk a file_path of
                       None \<Rightarrow> replicate required_size 0
                     | Some cur \<Rightarrow>
                         if length cur < required_size
                         then cur @ replicate (required_size - length cur) 0
                         else cur);
          page_offset = page_number * PAGE_SIZE
      in a\<lparr>disk := (disk a)(file_path \<mapsto> slice_assign content page_offset page_data)\<rparr>)"

definition find_primary_key_value :: "archive \<Rightarrow> string \<Rightarrow> string list \<Rightarrow> error + string" where
  "find_primary_key_value a type_name values =
     (case map_of (catalog a) type_name of
        None \<Rightarrow> Inl KeyError
      | Some ti \<Rightarrow> py_index values (primary_key_order ti - 1))"

subsection \<open>Validators\<close>

text \<open>
  \<^verbatim>\<open>re.match(r'^[a-zA-Z0-9]+$', s)\<close>: one or more letters and digits from the start, up
  to the end of the string or to a single newline that ends it (Python's \<^verbatim>\<open>$\<close>).
\<close>

definition match_alnum :: "string \<Rightarrow> bool" where
  "match_alnum s =
     (takeWhile is_alnum s \<noteq> [] \<and>
      (dropWhile is_alnum s = [] \<or> dropWhile is_alnum s = [NEWLINE]))"


definition is_valid_string_value :: "string \<Rightarrow> bool" where
  "is_valid_string_value v = match_alnum v"

definition is_valid_int_value :: "string \<Rightarrow> bool" where
  "is_valid_int_value v = (case py_int v of Inl e \<Rightarrow> False | Inr n \<Rightarrow> True)"

subsection \<open>create\_type\<close>



subsection \<open>search\_record\<close>

text \<open>
  The body of the slot loops of \<^verbatim>\<open>_search_record_internal\<close> and \<^verbatim>\<open>delete_record\<close>:
  the record of the slot is cut out of the page and decoded, and
  \<^verbatim>\<open>values and values[primary_key_index] == primary_key\<close> is tested. \<open>Inr (Some values)\<close>
  is a match.
\<close>

definition match_slot ::
  "archive \<Rightarrow> string \<Rightarrow> type_info \<Rightarrow> byte list \<Rightarrow> nat \<Rightarrow> string
     \<Rightarrow> error + string list option" where
  "match_slot a type_name ti page_data slot primary_key =
     (let record_offset = 12 + slot * record_size ti;
          record_data = slice page_data record_offset (record_offset + record_size ti)
      in case deserialize_record a type_name record_data of
           Inl e \<Rightarrow> Inl e
         | Inr None \<Rightarrow> Inr None
         | Inr (Some values) \<Rightarrow>
             if values = [] then Inr None
             else (case py_index values (primary_key_order ti - 1) of
                     Inl e \<Rightarrow> Inl e
                   | Inr v \<Rightarrow> if v = primary_key then Inr (Some values) else Inr None))"

fun search_slots ::
  "archive \<Rightarrow> string \<Rightarrow> type_info \<Rightarrow> string \<Rightarrow> byte list \<Rightarrow> int \<Rightarrow> nat list
     \<Rightarrow> error + string list option" where
  "search_slots a type_name ti primary_key page_data bitmap [] = Inr None"
| "search_slots a type_name ti primary_key page_data bitmap (slot # rest) =
     (if bitmap AND push_bit slot 1 \<noteq> 0 then
        (case match_slot a type_name ti page_data slot primary_key of
           Inl e \<Rightarrow> Inl e
         | Inr (Some values) \<Rightarrow> Inr (Some values)
         | Inr None \<Rightarrow> search_slots a type_name ti primary_key page_data bitmap rest)
      else search_slots a type_name ti primary_key page_data bitmap rest)"

function search_pages ::
  "archive \<Rightarrow> string \<Rightarrow> type_info \<Rightarrow> string \<Rightarrow> nat \<Rightarrow> error + string list option" where
  "search_pages a type_name ti primary_key page_number =
     (if page_number < MAX_PAGES_PER_FILE then
        (case load_page a type_name page_number of
           Inl e \<Rightarrow> Inl e
         | Inr (page_data, num_records, bitmap) \<Rightarrow>
             (case page_data of
                None \<Rightarrow> search_pages a type_name ti primary_key (page_number + 1)
              | Some pd \<Rightarrow>
                  if num_records = 0
                  then search_pages a type_name ti primary_key (page_number + 1)
                  else
                    (case search_slots a type_name ti primary_key pd bitmap
                            [0..<MAX_RECORDS_PER_PAGE] of
                       Inl e \<Rightarrow> Inl e
                     | Inr (Some values) \<Rightarrow> Inr (Some values)
                     | Inr None \<Rightarrow>
                         search_pages a type_name ti primary_key (page_number + 1))))
      else Inr None)"
  by pat_completeness auto
termination
  by (relation "measure (\<lambda>(a, type_name, ti, primary_key, page_number).
                   MAX_PAGES_PER_FILE - page_number)") auto

declare search_pages.simps [simp del]

definition search_record_internal ::
  "archive \<Rightarrow> string \<Rightarrow> string \<Rightarrow> error + string list option" where
  "search_record_internal a type_name primary_key =
     (case map_of (catalog a) type_name of
        None \<Rightarrow> Inr None
      | Some ti \<Rightarrow> search_pages a type_name ti primary_key 0)"


subsection \<open>create\_record\<close>

fun validate_values :: "((string \<times> string) \<times> string) list \<Rightarrow> bool" where
  "validate_values [] = True"
| "validate_values (((field_name, field_type), v) # rest) =
     (if field_type = ''int'' then
        (if \<not> is_valid_int_value v then False else validate_values rest)
      else if field_type = ''str'' then
        (if \<not> is_valid_string_value v then False else validate_values rest)
      else validate_values rest)"

text \<open>The first slot of \<^verbatim>\<open>range(10)\<close> whose bit is not set.\<close>

definition find_free_slot :: "int \<Rightarrow> nat option" where
  "find_free_slot bitmap =
     find (\<lambda>slot. \<not> (bitmap AND push_bit slot 1 \<noteq> 0)) [0..<MAX_RECORDS_PER_PAGE]"

text \<open>\<^verbatim>\<open>page_data[:12] = header\<close>.\<close>

definition set_header :: "byte list \<Rightarrow> byte list \<Rightarrow> byte list" where
  "set_header page_data header = header @ drop 12 page_data"

text \<open>
  The \<^verbatim>\<open>while True\<close> loop of \<^verbatim>\<open>create_record\<close>, entered at \<open>page_number\<close>. The page is
  loaded, or made of zero bytes with a header when \<^verbatim>\<open>_load_page\<close> gives none.
\<close>

function alloc_pages ::
  "archive \<Rightarrow> string \<Rightarrow> type_info \<Rightarrow> byte list \<Rightarrow> nat \<Rightarrow> (error + bool) \<times> archive" where
  "alloc_pages a type_name ti record_data page_number =
     (case load_page a type_name page_number of
        Inl e \<Rightarrow> (Inl e, a)
      | Inr (loaded, nr, bm) \<Rightarrow>
          (case (case loaded of
                   None \<Rightarrow>
                     (case create_page_header (int page_number) 0 0 of
                        Inl e \<Rightarrow> Inl e
                      | Inr header \<Rightarrow> Inr (set_header (replicate PAGE_SIZE 0) header, 0, 0))
                 | Some pd \<Rightarrow> Inr (pd, nr, bm)) of
             Inl e \<Rightarrow> (Inl e, a)
           | Inr (page_data, num_records, bitmap) \<Rightarrow>
               (case find_free_slot bitmap of
                  Some free_slot \<Rightarrow>
                    (let record_offset = 12 + free_slot * record_size ti;
                         page_data1 = slice_assign page_data record_offset record_data;
                         bitmap1 = bitmap OR push_bit free_slot 1;
                         num_records1 = num_records + 1
                     in case create_page_header (int page_number) num_records1 bitmap1 of
                          Inl e \<Rightarrow> (Inl e, a)
                        | Inr header \<Rightarrow>
                            (Inr True,
                             save_page a type_name page_number (set_header page_data1 header)))
                | None \<Rightarrow>
                    if page_number + 1 \<ge> MAX_PAGES_PER_FILE then (Inr False, a)
                    else alloc_pages a type_name ti record_data (page_number + 1))))"
  by pat_completeness auto
termination
  by (relation "measure (\<lambda>(a, type_name, ti, record_data, page_number).
                   MAX_PAGES_PER_FILE - page_number)") auto

declare alloc_pages.simps [simp del]

definition create_record :: "archive \<Rightarrow> string \<Rightarrow> string list \<Rightarrow> (error + bool) \<times> archive" where
  "create_record a type_name values =
     (case map_of (catalog a) type_name of
        None \<Rightarrow> (Inr False, a)
      | Some ti \<Rightarrow>
          if length values \<noteq> length (type_fields ti) then (Inr False, a)
          else if \<not> validate_values (zip (type_fields ti) values) then (Inr False, a)
          else
            (case find_primary_key_value a type_name values of
               Inl e \<Rightarrow> (Inl e, a)
             | Inr primary_key_value \<Rightarrow>
                 (case search_record_internal a type_name primary_key_value of
                    Inl e \<Rightarrow> (Inl e, a)
                  | Inr (Some found) \<Rightarrow> (Inr False, a)
                  | Inr None \<Rightarrow>
                      (case serialize_record a type_name values of
                         Inl e \<Rightarrow> (Inl e, a)
                       | Inr record_data \<Rightarrow> alloc_pages a type_name ti record_data 0))))"

subsection \<open>delete\_record\<close>

text \<open>
  The slot loop of \<^verbatim>\<open>delete_record\<close>: \<open>Inr (Some a')\<close> is the \<^verbatim>\<open>return True\<close> after the
  page has been saved, \<open>Inr None\<close> the end of the loop.
\<close>

fun delete_slots ::
  "archive \<Rightarrow> string \<Rightarrow> type_info \<Rightarrow> string \<Rightarrow> nat \<Rightarrow> byte list \<Rightarrow> int \<Rightarrow> int \<Rightarrow> nat list
     \<Rightarrow> error + archive option" where
  "delete_slots a type_name ti primary_key page_number page_data num_records bitmap [] = Inr None"
| "delete_slots a type_name ti primary_key page_number page_data num_records bitmap (slot # rest) =
     (if bitmap AND push_bit slot 1 \<noteq> 0 then
        (case match_slot a type_name ti page_data slot primary_key of
           Inl e \<Rightarrow> Inl e
         | Inr (Some values) \<Rightarrow>
             (let record_offset = 12 + slot * record_size ti
              in if record_offset < length page_data then
                   (let page_data1 = page_data[record_offset := 0];
                        bitmap1 = bitmap AND NOT (push_bit slot 1);
                        num_records1 = num_records - 1
                    in case create_page_header (int page_number) num_records1 bitmap1 of
                         Inl e \<Rightarrow> Inl e
                       | Inr header \<Rightarrow>
                           Inr (Some (save_page a type_name page_number
                                        (set_header page_data1 header))))
                 else Inl IndexError)
         | Inr None \<Rightarrow>
             delete_slots a type_name ti primary_key page_number page_data num_records bitmap rest)
      else delete_slots a type_name ti primary_key page_number page_data num_records bitmap rest)"

function delete_pages ::
  "archive \<Rightarrow> string \<Rightarrow> type_info \<Rightarrow> string \<Rightarrow> nat \<Rightarrow> (error + bool) \<times> archive" where
  "delete_pages a type_name ti primary_key page_number =
     (if page_number < MAX_PAGES_PER_FILE then
        (case load_page a type_name page_number of
           Inl e \<Rightarrow> (Inl e, a)
         | Inr (page_data, num_records, bitmap) \<Rightarrow>
             (case page_data of
                None \<Rightarrow> delete_pages a type_name ti primary_key (page_number + 1)
              | Some pd \<Rightarrow>
                  if num_records = 0
                  then delete_pages a type_name ti primary_key (page_number + 1)
                  else
                    (case delete_slots a type_name ti primary_key page_number pd num_records
                            bitmap [0..<MAX_RECORDS_PER_PAGE] of
                       Inl e \<Rightarrow> (Inl e, a)
                     | Inr (Some a') \<Rightarrow> (Inr True, a')
                     | Inr None \<Rightarrow>
                         delete_pages a type_name ti primary_key (page_number + 1))))
      else (Inr False, a))"
  by pat_completeness auto
termination
  by (relation "measure (\<lambda>(a, type_name, ti, primary_key, page_number).
                   MAX_PAGES_PER_FILE - page_number)") auto

declare delete_pages.simps [simp del]

definition delete_record :: "archive \<Rightarrow> string \<Rightarrow> string \<Rightarrow> (error + bool) \<times> archive" where
  "delete_record a type_name primary_key =
     (case map_of (catalog a) type_name of
        None \<Rightarrow> (Inr False, a)
      | Some ti \<Rightarrow> delete_pages a type_name ti primary_key 0)"

section \<open>Notions used in the statements\<close>

text \<open>
  Values that the codec stores exactly, for a schema of \<^verbatim>\<open>int\<close> and \<^verbatim>\<open>str\<close> fields:
  an integer value is the decimal form \<^verbatim>\<open>str(n)\<close> of a signed 32-bit number, a text
  value passes \<open>is_valid_string_value\<close> and has at most 99 characters.
\<close>

fun exact_values :: "(string \<times> string) list \<Rightarrow> string list \<Rightarrow> bool" where
  "exact_values [] [] = True"
| "exact_values ((field_name, field_type) # fs) (v # vs) =
     ((if field_type = ''int'' then
         (case py_int v of
            Inl e \<Rightarrow> False
          | Inr n \<Rightarrow> - 2147483648 \<le> n \<and> n < 2147483648 \<and> str_int n = v)
       else if field_type = ''str'' then
         is_valid_string_value v \<and> length v \<le> MAX_STRING_LENGTH - 1
       else False)
      \<and> exact_values fs vs)"
| "exact_values fs vs = False"

text \<open>
  Two archives for examples: the catalog after
  \<^verbatim>\<open>create type Person 2 1 name str age int\<close>, and the catalog after
  \<^verbatim>\<open>create type T 1 1 id int\<close>, each with no data file yet.
\<close>

definition person_archive :: archive where
  "person_archive =
     \<lparr>catalog = [(''Person'',
                  \<lparr>type_fields = [(''name'', ''str''), (''age'', ''int'')],
                   primary_key_order = 1, record_size = 105\<rparr>)],
      disk = Map.empty\<rparr>"

definition ids_archive :: archive where
  "ids_archive =
     \<lparr>catalog = [(''T'', \<lparr>type_fields = [(''id'', ''int'')],
                          primary_key_order = 1, record_size = 5\<rparr>)],
      disk = Map.empty\<rparr>"

text \<open>
  The preconditions of \<^verbatim>\<open>create_type\<close> in the words of the specification: the name is
  new, valid and of at most 12 characters, there are at most 10 fields, the primary key
  position is between 1 and the number of fields, and \<open>field_specs\<close> decomposes into
  exactly \<open>num_fields\<close> pairs of a valid name of at most 20 characters and a kind
  \<^verbatim>\<open>int\<close> or \<^verbatim>\<open>str\<close>.
\<close>

fun pairs_of :: "string list \<Rightarrow> (string \<times> string) list option" where
  "pairs_of [] = Some []"
| "pairs_of [x] = None"
| "pairs_of (x # y # rest) = map_option ((#) (x, y)) (pairs_of rest)"







text \<open>
  The pages of a type's data file as the page store sees them: page \<open>p\<close> is the up to 4096
  bytes from offset \<open>p * 4096\<close>, present when at least the 12 header bytes are there;
  the record count and the bitmap are the second and third header word.
\<close>

definition page_of :: "archive \<Rightarrow> string \<Rightarrow> nat \<Rightarrow> byte list option" where
  "page_of a type_name p =
     (case disk a (type_name @ ''.dat'') of
        None \<Rightarrow> None
      | Some content \<Rightarrow>
          if length (take 4096 (drop (p * 4096) content)) < 12 then None
          else Some (take 4096 (drop (p * 4096) content)))"

definition header_count :: "byte list \<Rightarrow> int" where
  "header_count pg = int (le_value (take 4 (drop 4 pg)))"

definition header_bitmap :: "byte list \<Rightarrow> int" where
  "header_bitmap pg = int (le_value (take 4 (drop 8 pg)))"

definition slot_bytes :: "type_info \<Rightarrow> byte list \<Rightarrow> nat \<Rightarrow> byte list" where
  "slot_bytes ti pg s = take (record_size ti) (drop (12 + s * record_size ti) pg)"







text \<open>
  \<open>whole_pages\<close>: the data file of the type is absent or a whole number of 4096-byte
  pages. \<open>record_fits\<close>: the cached record size is the one computed from the fields, and
  ten records fit into a page after the header.
\<close>

definition whole_pages :: "archive \<Rightarrow> string \<Rightarrow> bool" where
  "whole_pages a type_name =
     (case disk a (type_name @ ''.dat'') of
        None \<Rightarrow> True
      | Some content \<Rightarrow> length content mod 4096 = 0)"

definition record_fits :: "type_info \<Rightarrow> bool" where
  "record_fits ti =
     (record_size ti = calculate_record_size (type_fields ti) \<and>
      12 + 10 * record_size ti \<le> 4096)"

text \<open>The bytes of page \<open>q\<close> in the contents of a file.\<close>

definition page_at :: "byte list \<Rightarrow> nat \<Rightarrow> byte list" where
  "page_at content q = take 4096 (drop (q * 4096) content)"

text \<open>The contents of a file after \<^verbatim>\<open>_save_page\<close> has written \<open>pd\<close> as page \<open>p\<close>.\<close>

definition written :: "byte list \<Rightarrow> nat \<Rightarrow> byte list \<Rightarrow> byte list" where
  "written c p pd =
     slice_assign (if length c < (p + 1) * 4096
                   then c @ replicate ((p + 1) * 4096 - length c) 0 else c)
       (p * 4096) pd"

text \<open>The bytes the fields of a schema take in a record, after the validity byte.\<close>

definition fields_width :: "(string \<times> string) list \<Rightarrow> nat" where
  "fields_width fs =
     sum_list (map (\<lambda>f. if snd f = ''int'' then 4 else if snd f = ''str'' then 100 else 0) fs)"

text \<open>
  What \<^verbatim>\<open>create_record\<close> works with at page \<open>q\<close>: the bytes, record count and bitmap of
  the page on disk, or an all-zero page with count 0 and bitmap 0 when \<^verbatim>\<open>_load_page\<close>
  gives none.
\<close>

definition page_bytes :: "archive \<Rightarrow> string \<Rightarrow> nat \<Rightarrow> byte list" where
  "page_bytes a type_name q =
     (case page_of a type_name q of None \<Rightarrow> replicate 4096 0 | Some pg \<Rightarrow> pg)"

definition page_count :: "archive \<Rightarrow> string \<Rightarrow> nat \<Rightarrow> int" where
  "page_count a type_name q =
     (case page_of a type_name q of None \<Rightarrow> 0 | Some pg \<Rightarrow> header_count pg)"

definition page_bitmap :: "archive \<Rightarrow> string \<Rightarrow> nat \<Rightarrow> int" where
  "page_bitmap a type_name q =
     (case page_of a type_name q of None \<Rightarrow> 0 | Some pg \<Rightarrow> header_bitmap pg)"

text \<open>The last step of \<^verbatim>\<open>create_record\<close>: the record goes into slot \<open>s\<close> of page \<open>q\<close>.\<close>

definition write_record ::
  "archive \<Rightarrow> string \<Rightarrow> type_info \<Rightarrow> byte list \<Rightarrow> nat \<Rightarrow> nat \<Rightarrow> (error + bool) \<times> archive" where
  "write_record a type_name ti rd q s =
     (case create_page_header (int q) (page_count a type_name q + 1)
             (page_bitmap a type_name q OR push_bit s 1) of
        Inl e \<Rightarrow> (Inl e, a)
      | Inr hdr \<Rightarrow>
          (Inr True,
           save_page a type_name q
             (set_header (slice_assign (page_bytes a type_name q)
                            (12 + s * record_size ti) rd) hdr)))"

text \<open>The archive \<open>ids_archive\<close> after \<^verbatim>\<open>create record T 5\<close>: one page, slot 0 taken.\<close>

definition five_page :: "byte list" where
  "five_page = [0, 0, 0, 0, 1, 0, 0, 0, 1, 0, 0, 0] @ [1, 5, 0, 0, 0] @ replicate 4079 0"

definition five_archive :: archive where
  "five_archive = ids_archive\<lparr>disk := [''T.dat'' \<mapsto> five_page]\<rparr>"

text \<open>
  The last step of \<^verbatim>\<open>delete_record\<close>: in page \<open>p\<close> with bytes \<open>pg\<close>, the validity byte of
  slot \<open>s\<close> is zeroed, the bit cleared, the count decremented and the page saved.
\<close>

definition erase_record ::
  "archive \<Rightarrow> string \<Rightarrow> type_info \<Rightarrow> nat \<Rightarrow> byte list \<Rightarrow> nat \<Rightarrow> archive \<Rightarrow> bool" where
  "erase_record a type_name ti p pg s a' =
     (\<exists>hdr. create_page_header (int p) (header_count pg - 1)
               (header_bitmap pg AND NOT (push_bit s 1)) = Inr hdr \<and>
            12 + s * record_size ti < length pg \<and>
            a' = save_page a type_name p
                   (set_header (pg[12 + s * record_size ti := 0]) hdr))"

text \<open>
  The states of a type's data file that \<^verbatim>\<open>create_record\<close> and \<^verbatim>\<open>delete_record\<close> on
  that type reach from an archive \<open>a0\<close>, whatever they return. \<open>blank_file\<close>: the data
  file is absent or made of whole pages of zero bytes.
\<close>

inductive reachable :: "archive \<Rightarrow> string \<Rightarrow> archive \<Rightarrow> bool" for a0 :: archive and type_name :: string where
  reach_start: "reachable a0 type_name a0"
| reach_create: "reachable a0 type_name a \<Longrightarrow> create_record a type_name vals = (r, a') \<Longrightarrow>
     reachable a0 type_name a'"
| reach_delete: "reachable a0 type_name a \<Longrightarrow> delete_record a type_name key = (r, a') \<Longrightarrow>
     reachable a0 type_name a'"

definition blank_file :: "archive \<Rightarrow> string \<Rightarrow> bool" where
  "blank_file a type_name =
     (case disk a (type_name @ ''.dat'') of
        None \<Rightarrow> True
      | Some content \<Rightarrow> content = replicate (length content) 0 \<and> length content mod 4096 = 0)"

text \<open>
  The page invariant: the record count is the number of set bits among the bitmap bits
  0..9, and bit \<open>s\<close> is set exactly when the validity byte of slot \<open>s\<close> is 1.
\<close>

definition page_consistent :: "type_info \<Rightarrow> byte list \<Rightarrow> bool" where
  "page_consistent ti pg =
     (header_count pg = int (length (filter (bit (header_bitmap pg)) [0..<10])) \<and>
      list_all (\<lambda>s. bit (header_bitmap pg) s = (take 1 (slot_bytes ti pg s) = [1])) [0..<10])"

section \<open>Properties\<close>

subsection \<open>The struct formats\<close>

lemma length_le_bytes4 [simp]: "length (le_bytes4 m) = 4"
  by (simp add: le_bytes4_def)

lemma unat_byte_mod: "unat (of_nat (k mod 256) :: byte) = k mod 256"
  by (simp add: unat_of_nat)

lemma le_value_le_bytes4:
  assumes m: "m < 4294967296"
  shows "le_value (le_bytes4 m) = m"
proof -
  define a where "a = m div 256"
  define b where "b = a div 256"
  define c where "c = b div 256"
  have e1: "m div 65536 = b" unfolding b_def a_def by (simp add: div_mult2_eq)
  have e2: "m div 16777216 = c" unfolding c_def b_def a_def by (simp add: div_mult2_eq)
  have c: "c < 256" unfolding e2 [symmetric] using m by simp
  have m1: "m = m mod 256 + 256 * a" unfolding a_def by simp
  have a1: "a = a mod 256 + 256 * b" unfolding b_def by simp
  have b1: "b = b mod 256 + 256 * c" unfolding c_def by simp
  have "le_value (le_bytes4 m) =
        m mod 256 + 256 * (a mod 256 + 256 * (b mod 256 + 256 * (c mod 256)))"
    unfolding le_value_def le_bytes4_def e1 e2 a_def [symmetric]
    by (simp add: unat_byte_mod)
  also have "\<dots> = m mod 256 + 256 * (a mod 256 + 256 * b)" using b1 c by simp
  also have "\<dots> = m" using a1 m1 by simp
  finally show ?thesis .
qed

lemma unpack_I_pack_I: "pack_I n = Inr b \<Longrightarrow> unpack_I b = Inr n"
  by (auto simp: pack_I_def unpack_I_def le_value_le_bytes4 split: if_splits)

lemma unpack_i_pack_i:
  assumes a: "pack_i n = Inr b"
  shows "unpack_i b = Inr n"
proof -
  from a have r: "- 2147483648 \<le> n" "n < 2147483648" and b: "b = le_bytes4 (nat (n mod 4294967296))"
    by (auto simp: pack_i_def split: if_splits)
  have lt: "nat (n mod 4294967296) < 4294967296"
    by (simp add: nat_less_iff)
  have v: "int (le_value b) = n mod 4294967296"
    using le_value_le_bytes4 [OF lt] b by simp
  show ?thesis
  proof (cases "0 \<le> n")
    case True
    then have "n mod 4294967296 = n" using r by simp
    then show ?thesis using v r b by (simp add: unpack_i_def)
  next
    case False
    have "(n + 4294967296) mod 4294967296 = n + 4294967296"
      using r False by (intro mod_pos_pos_trivial) auto
    then have "n mod 4294967296 = n + 4294967296" by simp
    then show ?thesis using v r b False by (simp add: unpack_i_def)
  qed
qed

lemma ord_char_of: "n < 256 \<Longrightarrow> ord (char_of n) = n"
  by (simp add: ord_def)

lemma char_of_ord: "char_of (ord c) = c"
  by (simp add: ord_def)

lemma ord_less_256: "ord c < 256"
  by (simp add: ord_def)

lemma unat_byte_small: "n < 256 \<Longrightarrow> unat (of_nat n :: byte) = n"
  by (simp add: unat_of_nat)

subsection \<open>Strings and UTF-8\<close>

lemma utf8_decode_encode_char:
  "utf8_decode (encode_char c @ bs) =
     (case utf8_decode bs of Inl e \<Rightarrow> Inl e | Inr s \<Rightarrow> Inr (c # s))"
proof (cases "ord c < 128")
  case True
  then show ?thesis
    by (simp add: encode_char_def unat_byte_small char_of_ord ord_less_256 split: sum.splits)
next
  case False
  have lt: "ord c < 256" by (rule ord_less_256)
  define hi where "hi = 192 + ord c div 64"
  define lo where "lo = 128 + ord c mod 64"
  have hi: "194 \<le> hi" "hi < 196" using False lt unfolding hi_def by auto
  have lo: "128 \<le> lo" "lo < 192" unfolding lo_def by auto
  have uh: "unat (of_nat hi :: byte) = hi" using hi by (simp add: unat_byte_small)
  have ul: "unat (of_nat lo :: byte) = lo" using lo by (simp add: unat_byte_small)
  have e: "(hi - 192) * 64 + (lo - 128) = ord c" unfolding hi_def lo_def by simp
  have enc: "encode_char c = [of_nat hi, of_nat lo]"
    using False by (simp add: encode_char_def hi_def lo_def)
  have "utf8_decode ([of_nat hi, of_nat lo] @ bs) =
        (case utf8_decode bs of Inl e \<Rightarrow> Inl e | Inr s \<Rightarrow> Inr (char_of ((hi - 192) * 64 + (lo - 128)) # s))"
    using hi lo by (simp add: uh ul split: sum.splits)
  then show ?thesis unfolding enc e by (simp add: char_of_ord split: sum.splits)
qed

lemma utf8_decode_encode_append:
  "utf8_decode (utf8_encode s @ bs) =
     (case utf8_decode bs of Inl e \<Rightarrow> Inl e | Inr r \<Rightarrow> Inr (s @ r))"
proof (induction s)
  case Nil
  then show ?case by (simp add: utf8_encode_def split: sum.splits)
next
  case (Cons c s)
  have "utf8_encode (c # s) @ bs = encode_char c @ (utf8_encode s @ bs)"
    by (simp add: utf8_encode_def)
  then show ?case using Cons
    by (simp add: utf8_decode_encode_char split: sum.splits)
qed

lemma utf8_decode_encode: "utf8_decode (utf8_encode s) = Inr s"
  using utf8_decode_encode_append [of s "[]"] by simp

lemma length_utf8_encode_ascii:
  "\<forall>c\<in>set s. ord c < 128 \<Longrightarrow> length (utf8_encode s) = length s"
  by (induction s) (simp_all add: utf8_encode_def encode_char_def)

lemma rstrip_nul_pad:
  "s = [] \<or> last s \<noteq> NUL \<Longrightarrow> rstrip_nul (s @ replicate k NUL) = s"
proof -
  assume a: "s = [] \<or> last s \<noteq> NUL"
  have "dropWhile (\<lambda>c. c = NUL) (replicate k NUL @ rev s) = dropWhile (\<lambda>c. c = NUL) (rev s)"
    by (induction k) simp_all
  moreover have "dropWhile (\<lambda>c. c = NUL) (rev s) = rev s"
    using a by (cases s rule: rev_cases) auto
  ultimately show ?thesis by (simp add: rstrip_nul_def)
qed

lemma slice_middle: "slice (pre @ b @ rest) (length pre) (length pre + length b) = b"
  by (simp add: slice_def)

lemma match_alnum_chars: "match_alnum v \<Longrightarrow> c \<in> set v \<Longrightarrow> is_alnum c \<or> c = NEWLINE"
proof -
  assume m: "match_alnum v" and c: "c \<in> set v"
  have "v = takeWhile is_alnum v @ dropWhile is_alnum v" by simp
  then have "set v = set (takeWhile is_alnum v) \<union> set (dropWhile is_alnum v)"
    by (metis set_append)
  with c have "c \<in> set (takeWhile is_alnum v) \<or> c \<in> set (dropWhile is_alnum v)" by blast
  then show ?thesis
  proof
    assume "c \<in> set (takeWhile is_alnum v)"
    then show ?thesis by (auto dest: set_takeWhileD)
  next
    assume "c \<in> set (dropWhile is_alnum v)"
    then show ?thesis using m by (auto simp: match_alnum_def dest: set_dropWhileD)
  qed
qed

lemma is_alnum_ascii: "is_alnum c \<Longrightarrow> ord c < 128 \<and> c \<noteq> NUL"
  by (auto simp: is_alnum_def is_letter_def is_digit_def NUL_def ord_def)

lemma newline_ascii: "ord NEWLINE < 128 \<and> NEWLINE \<noteq> NUL"
  by (simp add: NEWLINE_def NUL_def ord_def)

lemma ord_NUL: "ord NUL = 0"
  by (simp add: NUL_def ord_def)

lemma valid_string_ascii:
  "is_valid_string_value v \<Longrightarrow> c \<in> set v \<Longrightarrow> ord c < 128 \<and> c \<noteq> NUL"
  using match_alnum_chars [of v c] is_alnum_ascii [of c] newline_ascii
  by (auto simp: is_valid_string_value_def)

lemma valid_string_nonempty: "is_valid_string_value v \<Longrightarrow> v \<noteq> []"
  by (auto simp: is_valid_string_value_def match_alnum_def)

text \<open>The 100 bytes of a text field, and what is read back from them.\<close>

lemma text_field_bytes:
  assumes v: "is_valid_string_value v"
  shows "length (utf8_encode (ljust (slice v 0 (MAX_STRING_LENGTH - 1)) MAX_STRING_LENGTH)) = 100"
proof -
  let ?p = "ljust (slice v 0 (MAX_STRING_LENGTH - 1)) MAX_STRING_LENGTH"
  have "\<forall>c\<in>set ?p. ord c < 128"
    using valid_string_ascii [OF v]
    by (auto simp: ljust_def slice_def ord_NUL dest: in_set_takeD)
  then have "length (utf8_encode ?p) = length ?p" by (rule length_utf8_encode_ascii)
  then show ?thesis by (simp add: ljust_def slice_def MAX_STRING_LENGTH_def)
qed

lemma text_field_decode:
  assumes v: "is_valid_string_value v"
  shows "rstrip_nul (ljust (slice v 0 (MAX_STRING_LENGTH - 1)) MAX_STRING_LENGTH) =
         take 99 v"
proof -
  have ne: "v \<noteq> []" using v by (rule valid_string_nonempty)
  then have tne: "take 99 v \<noteq> []" by simp
  then have "last (take 99 v) \<in> set (take 99 v)" by (rule last_in_set)
  then have "last (take 99 v) \<in> set v" by (rule in_set_takeD)
  then have "last (take 99 v) \<noteq> NUL" using valid_string_ascii [OF v] by blast
  then show ?thesis
    by (simp add: ljust_def slice_def MAX_STRING_LENGTH_def rstrip_nul_pad)
qed

subsection \<open>The record codec\<close>

lemma py_index_drop: "drop i values = v # vs \<Longrightarrow> py_index values (int i) = Inr v"
proof -
  assume d: "drop i values = v # vs"
  then have lt: "i < length values" by (metis drop_all list.distinct(1) not_le)
  have "values ! i = v" using d lt by (metis Cons_nth_drop_Suc list.inject)
  then show ?thesis using lt by (simp add: py_index_def)
qed

lemma drop_Suc_of: "drop i values = v # vs \<Longrightarrow> drop (i + 1) values = vs"
  by (metis Suc_eq_plus1 drop_Suc list.sel(3) tl_drop)

lemma pack_i_in_range:
  "- 2147483648 \<le> n \<Longrightarrow> n < 2147483648 \<Longrightarrow> \<exists>b. pack_i n = Inr b \<and> length b = 4"
  by (simp add: pack_i_def)

lemma codec_fields_roundtrip:
  "exact_values fs (drop i values) \<Longrightarrow>
   \<exists>body. serialize_fields fs i values acc = Inr (acc @ body) \<and>
     (\<forall>pre suffix vals.
        deserialize_fields fs (pre @ body @ suffix) (length pre) vals =
          Inr (vals @ drop i values))"
proof (induction fs arbitrary: i acc)
  case Nil
  then have "drop i values = []" by (cases "drop i values") simp_all
  then show ?case by simp
next
  case (Cons f fs)
  obtain field_name field_type where f: "f = (field_name, field_type)" by (cases f)
  from Cons.prems obtain v vs where d: "drop i values = v # vs"
    by (cases "drop i values") (simp_all add: f)
  have ix: "py_index values (int i) = Inr v" using d by (rule py_index_drop)
  have d1: "drop (i + 1) values = vs" using d by (rule drop_Suc_of)
  from Cons.prems d1 have rest: "exact_values fs (drop (i + 1) values)"
    by (simp add: f d)
  from Cons.prems have ty: "field_type = ''int'' \<or> field_type = ''str''"
    by (auto simp: f d split: if_splits)
  then show ?case
  proof
    assume int: "field_type = ''int''"
    from Cons.prems obtain n where n: "py_int v = Inr n" "- 2147483648 \<le> n" "n < 2147483648"
      "str_int n = v"
      by (auto simp: f d int split: sum.splits)
    obtain b where b: "pack_i n = Inr b" "length b = 4"
      using pack_i_in_range [OF n(2,3)] by blast
    have ub: "unpack_i b = Inr n" using b(1) by (rule unpack_i_pack_i)
    from Cons.IH [OF rest, of "acc @ b"] obtain body where
      s: "serialize_fields fs (i + 1) values (acc @ b) = Inr ((acc @ b) @ body)" and
      dd: "\<And>pre suffix vals. deserialize_fields fs (pre @ body @ suffix) (length pre) vals =
             Inr (vals @ drop (i + 1) values)"
      by blast
    have s': "serialize_fields (f # fs) i values acc = Inr (acc @ (b @ body))"
      using s by (simp add: f int ix n(1) b(1))
    have d': "deserialize_fields (f # fs) (pre @ (b @ body) @ suffix) (length pre) vals =
             Inr (vals @ drop i values)" for pre suffix vals
    proof -
      have sl: "slice (pre @ b @ body @ suffix) (length pre) (length pre + 4) = b"
        using slice_middle [of pre b "body @ suffix"] b(2) by simp
      have "deserialize_fields (f # fs) (pre @ (b @ body) @ suffix) (length pre) vals =
            deserialize_fields fs ((pre @ b) @ body @ suffix) (length (pre @ b)) (vals @ [v])"
        by (simp add: f int sl ub n(4) b(2))
      also have "\<dots> = Inr ((vals @ [v]) @ drop (i + 1) values)" by (rule dd)
      finally show ?thesis using d1 by (simp add: d)
    qed
    show ?thesis using s' d' by blast
  next
    assume str: "field_type = ''str''"
    then have ni: "field_type \<noteq> ''int''" by simp
    from Cons.prems have val: "is_valid_string_value v" and len: "length v \<le> 99"
      by (auto simp: f d str MAX_STRING_LENGTH_def)
    define b where "b = utf8_encode (ljust (slice v 0 (MAX_STRING_LENGTH - 1)) MAX_STRING_LENGTH)"
    have lb: "length b = MAX_STRING_LENGTH"
      unfolding b_def using text_field_bytes [OF val] by (simp add: MAX_STRING_LENGTH_def)
    have dec: "utf8_decode b = Inr (ljust (slice v 0 (MAX_STRING_LENGTH - 1)) MAX_STRING_LENGTH)"
      unfolding b_def by (rule utf8_decode_encode)
    have rt: "rstrip_nul (ljust (slice v 0 (MAX_STRING_LENGTH - 1)) MAX_STRING_LENGTH) = v"
      using text_field_decode [OF val] len by simp
    from Cons.IH [OF rest, of "acc @ b"] obtain body where
      s: "serialize_fields fs (i + 1) values (acc @ b) = Inr ((acc @ b) @ body)" and
      dd: "\<And>pre suffix vals. deserialize_fields fs (pre @ body @ suffix) (length pre) vals =
             Inr (vals @ drop (i + 1) values)"
      by blast
    have s': "serialize_fields (f # fs) i values acc = Inr (acc @ (b @ body))"
      using s by (simp add: f str ix b_def Let_def)
    have d': "deserialize_fields (f # fs) (pre @ (b @ body) @ suffix) (length pre) vals =
             Inr (vals @ drop i values)" for pre suffix vals
    proof -
      have sl: "slice (pre @ b @ body @ suffix) (length pre) (length pre + MAX_STRING_LENGTH) = b"
        using slice_middle [of pre b "body @ suffix"] lb by simp
      have "deserialize_fields (f # fs) (pre @ (b @ body) @ suffix) (length pre) vals =
            deserialize_fields fs ((pre @ b) @ body @ suffix) (length (pre @ b)) (vals @ [v])"
        using rt by (simp add: f str sl dec lb)
      also have "\<dots> = Inr ((vals @ [v]) @ drop (i + 1) values)" by (rule dd)
      finally show ?thesis using d1 by (simp add: d)
    qed
    show ?thesis using s' d' by blast
  qed
qed

text \<open>
  C2, amended. For a schema of \<^verbatim>\<open>int\<close> and \<^verbatim>\<open>str\<close> fields and values that the codec
  stores exactly (each integer value is the canonical decimal form of a signed 32-bit
  number, each text value matches the validator and has at most 99 characters),
  serializing succeeds and deserializing the bytes gives back exactly the values.
\<close>

theorem codec_roundtrip_exact:
  assumes "map_of (catalog a) type_name = Some ti"
    and "exact_values (type_fields ti) values"
  shows "\<exists>record_data. serialize_record a type_name values = Inr record_data \<and>
           deserialize_record a type_name record_data = Inr (Some values)"
proof -
  from codec_fields_roundtrip [of "type_fields ti" 0 "values" "[1]"] assms(2)
  obtain body where
    s: "serialize_fields (type_fields ti) 0 values [1] = Inr ([1] @ body)" and
    d: "\<And>pre suffix vals.
          deserialize_fields (type_fields ti) (pre @ body @ suffix) (length pre) vals =
            Inr (vals @ drop 0 values)"
    by auto
  have d1: "deserialize_fields (type_fields ti) (1 # body) 1 [] = Inr values"
    using d [of "[1]" "[]" "[]"] by simp
  have v: "unpack_B (slice (1 # body) 0 1) = Inr 1"
    by (simp add: unpack_B_def slice_def le_value_def)
  show ?thesis
    using s d1 v by (simp add: serialize_record_def deserialize_record_def assms(1))
qed

lemma str_int_30: "str_int 30 = ''30''"
  by (simp add: str_int_def str_nat.simps digit_char_def char_of_def bit_Suc_0_iff)

lemma py_int_30: "py_int ''30'' = Inr 30"
  by (simp add: py_int_def strip_def is_space_def ord_def parse_unsigned_def is_digit_def
      digits_value_def)

lemma valid_Alice: "is_valid_string_value ''Alice''"
  by (simp add: is_valid_string_value_def match_alnum_def is_alnum_def is_letter_def
      is_digit_def ord_def)

theorem codec_roundtrip_exact_witness:
  "map_of (catalog person_archive) ''Person'' =
     Some \<lparr>type_fields = [(''name'', ''str''), (''age'', ''int'')],
           primary_key_order = 1, record_size = 105\<rparr> \<and>
   exact_values [(''name'', ''str''), (''age'', ''int'')] [''Alice'', ''30''] \<and>
   (\<exists>record_data. serialize_record person_archive ''Person'' [''Alice'', ''30''] = Inr record_data \<and>
      deserialize_record person_archive ''Person'' record_data = Inr (Some [''Alice'', ''30'']))"
proof -
  have c: "map_of (catalog person_archive) ''Person'' =
     Some \<lparr>type_fields = [(''name'', ''str''), (''age'', ''int'')],
           primary_key_order = 1, record_size = 105\<rparr>"
    by (simp add: person_archive_def)
  have e: "exact_values [(''name'', ''str''), (''age'', ''int'')] [''Alice'', ''30'']"
    by (simp add: py_int_30 str_int_30 valid_Alice MAX_STRING_LENGTH_def)
  show ?thesis
    using codec_roundtrip_exact [OF c, of "[''Alice'', ''30'']"] c e by simp
qed

lemma py_int_05: "py_int ''05'' = Inr 5"
  by (simp add: py_int_def strip_def is_space_def ord_def parse_unsigned_def is_digit_def
      digits_value_def)

lemma pack_i_5: "pack_i 5 = Inr [5, 0, 0, 0]"
  by (simp add: pack_i_def le_bytes4_def)

lemma str_int_5: "str_int 5 = ''5''"
  by (simp add: str_int_def str_nat.simps digit_char_def char_of_def bit_Suc_0_iff)

lemma unpack_i_5: "unpack_i [5, 0, 0, 0] = Inr 5"
  by (simp add: unpack_i_def le_value_def)

text \<open>
  C2 as stated fails: \<^verbatim>\<open>05\<close> passes the integer validator and is read back as \<^verbatim>\<open>5\<close>.
\<close>

theorem codec_roundtrip_counterexample:
  "validate_values (zip [(''id'', ''int'')] [''05'']) \<and>
   serialize_record ids_archive ''T'' [''05''] = Inr [1, 5, 0, 0, 0] \<and>
   deserialize_record ids_archive ''T'' [1, 5, 0, 0, 0] = Inr (Some [''5'']) \<and>
   [''5''] \<noteq> [''05'']"
  by (simp add: is_valid_int_value_def py_int_05 serialize_record_def deserialize_record_def
      ids_archive_def py_index_def pack_i_5 unpack_B_def slice_def le_value_def unpack_i_5
      str_int_5)

subsection \<open>create\_type\<close>

lemma pairs_of_odd: "pairs_of specs = None \<longleftrightarrow> odd (length specs)"
  by (induction specs rule: pairs_of.induct) simp_all







subsection \<open>Loading a malformed catalog\<close>















subsection \<open>The scan of search\_record\<close>

lemma load_page_page_of:
  "load_page a type_name p =
     Inr (case page_of a type_name p of
            None \<Rightarrow> (None, 0, 0)
          | Some pg \<Rightarrow> (Some pg, header_count pg, header_bitmap pg))"
proof (cases "disk a (type_name @ ''.dat'')")
  case None
  then show ?thesis by (simp add: load_page_def page_of_def get_data_file_path_def)
next
  case (Some content)
  define pg where "pg = take 4096 (drop (p * 4096) content)"
  show ?thesis
  proof (cases "length pg < 12")
    case True
    then have T: "min (length content - p * 4096) 4096 < 12" by (simp add: pg_def)
    show ?thesis using Some T
      by (simp add: load_page_def page_of_def get_data_file_path_def slice_def PAGE_SIZE_def)
  next
    case False
    then have l: "length (take 12 pg) = 12" by simp
    have h: "parse_page_header pg = Inr (int (le_value (take 4 pg)), header_count pg, header_bitmap pg)"
      using False
      by (simp add: parse_page_header_def slice_def header_count_def header_bitmap_def
          Let_def take_drop min_def)
    have F: "\<not> min (length content - p * 4096) 4096 < 12"
      using False by (simp add: pg_def)
    show ?thesis using Some F False h
      by (simp add: load_page_def page_of_def get_data_file_path_def slice_def PAGE_SIZE_def
          pg_def [symmetric] Let_def)
  qed
qed

lemma bit_test: "(bitmap AND push_bit slot 1 \<noteq> (0::int)) = bit bitmap slot"
  by (simp add: and_exp_eq_0_iff_not_bit push_bit_of_1)










subsection \<open>Pages of a file\<close>

lemma page_of_page_at:
  "page_of a type_name q =
     (case disk a (type_name @ ''.dat'') of
        None \<Rightarrow> None
      | Some content \<Rightarrow>
          if length (page_at content q) < 12 then None else Some (page_at content q))"
  by (auto simp add: page_of_def page_at_def split: option.splits)

lemma page_at_before:
  assumes "length xs = p * 4096" and "q < p"
  shows "page_at (xs @ ys) q = page_at xs q"
proof -
  have "q * 4096 + 4096 \<le> p * 4096" using assms(2) by (simp add: Suc_leI)
  then have "4096 \<le> length (drop (q * 4096) xs)" using assms(1) by simp
  then show ?thesis by (simp add: page_at_def)
qed

lemma page_at_after:
  assumes "length xs = p * 4096"
  shows "page_at (xs @ ys) (p + j) = page_at ys j"
  using assms by (simp add: page_at_def add_mult_distrib)

lemma page_at_beyond: "length c \<le> q * 4096 \<Longrightarrow> page_at c q = []"
  by (simp add: page_at_def)

lemma page_at_whole:
  assumes "length c = k * 4096" and "q < k"
  shows "length (page_at c q) = 4096"
proof -
  have "q * 4096 + 4096 \<le> k * 4096" using assms(2) by (simp add: Suc_leI)
  then show ?thesis using assms(1) by (simp add: page_at_def)
qed

lemma whole_pages_length:
  assumes "whole_pages a type_name" and "page_of a type_name q = Some pg"
  shows "length pg = 4096"
proof -
  from assms(2) obtain c where c: "disk a (type_name @ ''.dat'') = Some c"
    and pg: "pg = page_at c q" and l: "\<not> length (page_at c q) < 12"
    by (auto simp: page_of_page_at split: option.splits if_splits)
  from assms(1) c have "length c mod 4096 = 0" by (simp add: whole_pages_def)
  then obtain k where k: "length c = k * 4096" by (auto simp: mod_eq_0_iff_dvd)
  have "q < k"
  proof (rule ccontr)
    assume "\<not> q < k"
    then have "length c \<le> q * 4096" using k by simp
    then have "page_at c q = []" by (rule page_at_beyond)
    then show False using l by simp
  qed
  then show ?thesis using page_at_whole [OF k] pg by simp
qed

lemma written_inside:
  assumes k: "length c = k * 4096" and p: "p < k" and len: "length pd = 4096"
  shows "written c p pd = take (p * 4096) c @ pd @ drop ((p + 1) * 4096) c"
proof -
  have "(p + 1) * 4096 \<le> k * 4096" using p by (simp add: Suc_leI)
  then have "\<not> length c < (p + 1) * 4096" using k by simp
  then show ?thesis by (simp add: written_def slice_assign_def len add.commute)
qed

lemma written_at_end:
  assumes k: "length c = k * 4096" and len: "length pd = 4096"
  shows "written c k pd = c @ pd"
  using assms by (simp add: written_def slice_assign_def)

lemma written_pages:
  assumes k: "length c = k * 4096" and p: "p \<le> k" and len: "length pd = 4096"
  shows "page_at (written c p pd) q = (if q = p then pd else page_at c q)"
proof (cases "p < k")
  case True
  define xs where "xs = take (p * 4096) c"
  define zs where "zs = drop ((p + 1) * 4096) c"
  have w: "written c p pd = xs @ pd @ zs"
    unfolding xs_def zs_def by (rule written_inside [OF k True len])
  have pk: "p * 4096 \<le> length c" "(p + 1) * 4096 \<le> length c" using True k by simp_all
  have lx: "length xs = p * 4096" unfolding xs_def using pk by simp
  have lxp: "length (xs @ pd) = (p + 1) * 4096" using lx len by simp
  have c1: "c = xs @ drop (p * 4096) c" unfolding xs_def by simp
  have c2: "c = take ((p + 1) * 4096) c @ zs" unfolding zs_def by simp
  have l2: "length (take ((p + 1) * 4096) c) = (p + 1) * 4096" using pk by simp
  consider "q < p" | "q = p" | "q > p" by linarith
  then show ?thesis
  proof cases
    case 1
    have "page_at (written c p pd) q = page_at xs q"
      unfolding w by (rule page_at_before [OF lx 1])
    moreover have "page_at c q = page_at xs q"
      using page_at_before [OF lx 1, of "drop (p * 4096) c"] c1 by simp
    ultimately show ?thesis using 1 by simp
  next
    case 2
    have "page_at (xs @ pd @ zs) (p + 0) = page_at (pd @ zs) 0"
      by (rule page_at_after [OF lx])
    then show ?thesis using 2 w len by (simp add: page_at_def)
  next
    case 3
    define j where "j = q - (p + 1)"
    have j: "q = (p + 1) + j" using 3 by (simp add: j_def)
    have "page_at ((xs @ pd) @ zs) ((p + 1) + j) = page_at zs j"
      by (rule page_at_after [OF lxp])
    moreover have "page_at (take ((p + 1) * 4096) c @ zs) ((p + 1) + j) = page_at zs j"
      by (rule page_at_after [OF l2])
    ultimately show ?thesis using 3 w j c2 by simp
  qed
next
  case False
  then have pk: "p = k" using p by simp
  have w: "written c p pd = c @ pd" unfolding pk by (rule written_at_end [OF k len])
  consider "q < k" | "q = k" | "q > k" by linarith
  then show ?thesis
  proof cases
    case 1
    then show ?thesis using page_at_before [OF k 1, of pd] w pk by simp
  next
    case 2
    have "page_at (c @ pd) (k + 0) = page_at pd 0" by (rule page_at_after [OF k])
    then show ?thesis using 2 w pk len by (simp add: page_at_def)
  next
    case 3
    define j where "j = q - (k + 1)"
    have j: "q = k + (1 + j)" using 3 by (simp add: j_def)
    have "page_at (c @ pd) (k + (1 + j)) = page_at pd (1 + j)" by (rule page_at_after [OF k])
    moreover have "page_at pd (1 + j) = []" using len by (simp add: page_at_def)
    moreover have "page_at c q = []" using 3 k by (simp add: page_at_def)
    ultimately show ?thesis using 3 w pk j by simp
  qed
qed

lemma written_length:
  assumes k: "length c = k * 4096" and p: "p \<le> k" and len: "length pd = 4096"
  shows "length (written c p pd) = max k (p + 1) * 4096"
proof (cases "p < k")
  case True
  have pk: "(p + 1) * 4096 \<le> length c" using True k by simp
  have m: "max k (p + 1) = k" using True by simp
  show ?thesis unfolding written_inside [OF k True len] m using pk k len by simp
next
  case False
  then have pk: "p = k" using p by simp
  show ?thesis unfolding pk written_at_end [OF k len] using k len by simp
qed

lemma save_page_disk:
  "disk (save_page a type_name p pd) =
     (disk a)(type_name @ ''.dat'' \<mapsto>
        written (case disk a (type_name @ ''.dat'') of None \<Rightarrow> [] | Some c \<Rightarrow> c) p pd)"
  by (auto simp: save_page_def get_data_file_path_def written_def PAGE_SIZE_def Let_def
      split: option.splits)

lemma save_page_catalog [simp]: "catalog (save_page a type_name p pd) = catalog a"
  by (simp add: save_page_def Let_def)

lemma save_page_other_files:
  "path \<noteq> type_name @ ''.dat'' \<Longrightarrow> disk (save_page a type_name p pd) path = disk a path"
  by (simp add: save_page_disk)

lemma pages_before_present:
  assumes c: "(case disk a (type_name @ ''.dat'') of None \<Rightarrow> [] | Some c \<Rightarrow> c) = c"
    and k: "length c = k * 4096"
    and prev: "\<forall>q<p. page_of a type_name q \<noteq> None"
  shows "p \<le> k"
proof (rule ccontr)
  assume "\<not> p \<le> k"
  then have kp: "k < p" by simp
  have "page_at c k = []" using k by (simp add: page_at_def)
  then have "page_of a type_name k = None"
    using c by (auto simp: page_of_page_at split: option.splits)
  then show False using prev kp by blast
qed

lemma save_page_page_of:
  assumes wp: "whole_pages a type_name" and len: "length pd = 4096"
    and prev: "\<forall>q<p. page_of a type_name q \<noteq> None"
  shows "page_of (save_page a type_name p pd) type_name q =
           (if q = p then Some pd else page_of a type_name q)"
    and "whole_pages (save_page a type_name p pd) type_name"
proof -
  define c where "c = (case disk a (type_name @ ''.dat'') of None \<Rightarrow> [] | Some c \<Rightarrow> c)"
  have "length c mod 4096 = 0"
    using wp by (auto simp: c_def whole_pages_def split: option.splits)
  then obtain k where k: "length c = k * 4096" by (auto simp: mod_eq_0_iff_dvd)
  have pk: "p \<le> k" using pages_before_present [OF c_def [symmetric] k prev] .
  have d: "disk (save_page a type_name p pd) (type_name @ ''.dat'') = Some (written c p pd)"
    by (simp add: save_page_disk c_def)
  have old: "page_of a type_name q = (if length (page_at c q) < 12 then None else Some (page_at c q))"
    by (auto simp: page_of_page_at c_def page_at_def split: option.splits)
  have new: "page_of (save_page a type_name p pd) type_name q =
      (if length (page_at (written c p pd) q) < 12 then None
       else Some (page_at (written c p pd) q))"
    by (simp add: page_of_page_at d)
  show "page_of (save_page a type_name p pd) type_name q =
           (if q = p then Some pd else page_of a type_name q)"
    unfolding new old written_pages [OF k pk len] using len by simp
  show "whole_pages (save_page a type_name p pd) type_name"
    using written_length [OF k pk len] by (simp add: whole_pages_def d)
qed

subsection \<open>Page headers\<close>

lemma le_value_append4:
  "length h = 4 \<Longrightarrow> le_value (take 4 (h @ rest)) = le_value h"
  by simp

lemma create_page_header_Inr:
  "create_page_header p n bm = Inr hdr \<Longrightarrow>
   hdr = le_bytes4 (nat p) @ le_bytes4 (nat n) @ le_bytes4 (nat bm) \<and>
   0 \<le> p \<and> p < 4294967296 \<and> 0 \<le> n \<and> n < 4294967296 \<and> 0 \<le> bm \<and> bm < 4294967296"
  by (auto simp: create_page_header_def pack_I_def split: if_splits sum.splits)

lemma create_page_header_ok:
  "0 \<le> p \<Longrightarrow> p < 4294967296 \<Longrightarrow> 0 \<le> n \<Longrightarrow> n < 4294967296 \<Longrightarrow> 0 \<le> bm \<Longrightarrow> bm < 4294967296 \<Longrightarrow>
   create_page_header p n bm = Inr (le_bytes4 (nat p) @ le_bytes4 (nat n) @ le_bytes4 (nat bm))"
  by (simp add: create_page_header_def pack_I_def)

lemma header_fields:
  assumes "create_page_header p n bm = Inr hdr"
  shows "length hdr = 12"
    and "header_count (set_header pg hdr) = n"
    and "header_bitmap (set_header pg hdr) = bm"
    and "drop 12 (set_header pg hdr) = drop 12 pg"
proof -
  from create_page_header_Inr [OF assms] have
    h: "hdr = le_bytes4 (nat p) @ le_bytes4 (nat n) @ le_bytes4 (nat bm)"
    and n: "0 \<le> n" "n < 4294967296" and b: "0 \<le> bm" "bm < 4294967296"
    by simp_all
  show "length hdr = 12" by (simp add: h)
  have vn: "le_value (le_bytes4 (nat n)) = nat n" using n by (intro le_value_le_bytes4) simp
  have vb: "le_value (le_bytes4 (nat bm)) = nat bm" using b by (intro le_value_le_bytes4) simp
  show "header_count (set_header pg hdr) = n"
    using vn n by (simp add: header_count_def set_header_def h)
  show "header_bitmap (set_header pg hdr) = bm"
    using vb b by (simp add: header_bitmap_def set_header_def h)
  show "drop 12 (set_header pg hdr) = drop 12 pg"
    by (simp add: set_header_def h)
qed

lemma length_set_header:
  "length hdr = 12 \<Longrightarrow> 12 \<le> length pg \<Longrightarrow> length (set_header pg hdr) = length pg"
  by (simp add: set_header_def)

subsection \<open>Records and slots\<close>

lemma foldl_record_size:
  "foldl (\<lambda>size (field_name, field_type).
              if field_type = ''int'' then size + 4
              else if field_type = ''str'' then size + MAX_STRING_LENGTH
              else size) n fs = n + fields_width fs"
proof (induction fs arbitrary: n)
  case Nil
  then show ?case by (simp add: fields_width_def)
next
  case (Cons f fs)
  obtain field_name field_type where f: "f = (field_name, field_type)" by (cases f)
  show ?case
    using Cons.IH [of "n + 4"] Cons.IH [of "n + 100"] Cons.IH [of n]
    by (simp add: f fields_width_def MAX_STRING_LENGTH_def)
qed

lemma calculate_record_size_width: "calculate_record_size fs = 1 + fields_width fs"
  unfolding calculate_record_size_def by (rule foldl_record_size)

lemma fields_width_Cons:
  "fields_width ((field_name, field_type) # fs) =
     (if field_type = ''int'' then 4 else if field_type = ''str'' then 100 else 0) +
     fields_width fs"
  by (simp add: fields_width_def)

lemma take_prefix:
  assumes "take (length (xs @ ys)) zs = xs @ ys"
  shows "take (length xs) zs = xs"
proof -
  have "take (length xs) zs = take (length xs) (take (length (xs @ ys)) zs)"
    by (simp add: min_def)
  also have "\<dots> = take (length xs) (xs @ ys)" using assms by simp
  finally show ?thesis by simp
qed

lemma serialize_fields_shape:
  "drop i vals = vs \<Longrightarrow> length vs = length fs \<Longrightarrow> validate_values (zip fs vs) \<Longrightarrow>
   serialize_fields fs i vals acc = Inr rd \<Longrightarrow>
   length rd = length acc + fields_width fs \<and> take (length acc) rd = acc"
proof (induction fs arbitrary: i acc vs)
  case Nil
  then show ?case by (simp add: fields_width_def)
next
  case (Cons f fs)
  obtain field_name field_type where f: "f = (field_name, field_type)" by (cases f)
  from Cons.prems(1,2) obtain v vs' where d: "drop i vals = v # vs'" and vs: "vs = v # vs'"
    by (cases vs) auto
  have ix: "py_index vals (int i) = Inr v" using d by (rule py_index_drop)
  have d1: "drop (i + 1) vals = vs'" using d by (rule drop_Suc_of)
  have l1: "length vs' = length fs" using Cons.prems(2) vs by simp
  consider (int) "field_type = ''int''" | (str) "field_type = ''str''"
    | (other) "field_type \<noteq> ''int''" "field_type \<noteq> ''str''" by blast
  then show ?case
  proof cases
    case int
    from Cons.prems(3) have v1: "validate_values (zip fs vs')" by (simp add: f vs int split: if_splits)
    from Cons.prems(4) obtain n b where b: "pack_i n = Inr b"
      and s: "serialize_fields fs (i + 1) vals (acc @ b) = Inr rd"
      by (auto simp: f int ix split: sum.splits)
    have lb: "length b = 4" using b by (auto simp: pack_i_def split: if_splits)
    from Cons.IH [OF d1 l1 v1 s] have
      "length rd = length (acc @ b) + fields_width fs"
      "take (length (acc @ b)) rd = acc @ b" by simp_all
    then show ?thesis
      using lb take_prefix [of acc b rd] by (simp add: f int fields_width_Cons)
  next
    case str
    from Cons.prems(3) have v1: "validate_values (zip fs vs')" and val: "is_valid_string_value v"
      by (auto simp: f vs str split: if_splits)
    define b where "b = utf8_encode (ljust (slice v 0 (MAX_STRING_LENGTH - 1)) MAX_STRING_LENGTH)"
    have lb: "length b = 100" unfolding b_def using val by (rule text_field_bytes)
    from Cons.prems(4) have s: "serialize_fields fs (i + 1) vals (acc @ b) = Inr rd"
      by (simp add: f str ix b_def Let_def)
    from Cons.IH [OF d1 l1 v1 s] have
      "length rd = length (acc @ b) + fields_width fs"
      "take (length (acc @ b)) rd = acc @ b" by simp_all
    then show ?thesis
      using lb take_prefix [of acc b rd] by (simp add: f str fields_width_Cons)
  next
    case other
    from Cons.prems(3) have v1: "validate_values (zip fs vs')" by (simp add: f vs other)
    from Cons.prems(4) have s: "serialize_fields fs (i + 1) vals acc = Inr rd"
      by (simp add: f other)
    from Cons.IH [OF d1 l1 v1 s] show ?thesis
      by (simp add: f other fields_width_Cons)
  qed
qed

lemma slice_assign_before:
  assumes "a + n \<le> b" and "b \<le> length xs"
  shows "take n (drop a (slice_assign xs b ys)) = take n (drop a xs)"
proof -
  have l: "length (take b xs) = b" using assms(2) by simp
  have a: "a \<le> length (take b xs)" using assms(1) l by simp
  have "drop a (slice_assign xs b ys) =
        drop a (take b xs) @ (ys @ drop (b + length ys) xs)"
    using a by (simp add: slice_assign_def)
  moreover have "n \<le> length (drop a (take b xs))" using assms(1) l by simp
  ultimately have "take n (drop a (slice_assign xs b ys)) = take n (drop a (take b xs))"
    by simp
  also have "\<dots> = take n (take (b - a) (drop a xs))" by (simp only: drop_take)
  also have "\<dots> = take n (drop a xs)" using assms(1) by (simp add: min_def)
  finally show ?thesis .
qed

lemma slice_assign_after:
  "b + length ys \<le> a \<Longrightarrow> b \<le> length xs \<Longrightarrow>
   drop a (slice_assign xs b ys) = drop a xs"
  by (simp add: slice_assign_def min_def)

lemma slice_assign_at:
  "b \<le> length xs \<Longrightarrow> take (length ys) (drop b (slice_assign xs b ys)) = ys"
  by (simp add: slice_assign_def min_def)

lemma length_slice_assign:
  "b + length ys \<le> length xs \<Longrightarrow> length (slice_assign xs b ys) = length xs"
  by (auto simp add: slice_assign_def min_def)

lemma slot_offsets:
  fixes rs :: nat
  assumes "s < s'"
  shows "12 + s * rs + rs \<le> 12 + s' * rs"
proof -
  have "Suc s \<le> s'" using assms by simp
  then have "Suc s * rs \<le> s' * rs" by (rule mult_le_mono1)
  then show ?thesis by simp
qed

lemma slot_in_page:
  fixes rs :: nat
  assumes "s < 10" and "12 + 10 * rs \<le> n"
  shows "12 + s * rs + rs \<le> n"
proof -
  have "Suc s \<le> 10" using assms(1) by simp
  then have h: "Suc s * rs \<le> 10 * rs" by (rule mult_le_mono1)
  have e: "Suc s * rs = s * rs + rs" by simp
  from h [unfolded e] assms(2) show ?thesis by linarith
qed

lemma slot_bytes_slice_assign:
  assumes l: "length rd = record_size ti" and s: "s < 10" and s': "s' < 10"
    and fit: "12 + 10 * record_size ti \<le> length pg"
  shows "slot_bytes ti (slice_assign pg (12 + s * record_size ti) rd) s' =
           (if s' = s then rd else slot_bytes ti pg s')"
proof -
  have b: "12 + s * record_size ti + record_size ti \<le> length pg"
    using slot_in_page [OF s fit] .
  then have b0: "12 + s * record_size ti \<le> length pg" by simp
  consider "s' < s" | "s' = s" | "s < s'" by linarith
  then show ?thesis
  proof cases
    case 1
    have "12 + s' * record_size ti + record_size ti \<le> 12 + s * record_size ti"
      using slot_offsets [OF 1] .
    then show ?thesis
      using 1 slice_assign_before [OF _ b0, of "12 + s' * record_size ti" "record_size ti" rd]
      by (simp add: slot_bytes_def)
  next
    case 2
    then show ?thesis using slice_assign_at [OF b0, of rd] l by (simp add: slot_bytes_def)
  next
    case 3
    have "12 + s * record_size ti + length rd \<le> 12 + s' * record_size ti"
      using slot_offsets [OF 3] l by simp
    then show ?thesis
      using 3 slice_assign_after [OF _ b0, of rd "12 + s' * record_size ti"]
      by (simp add: slot_bytes_def)
  qed
qed

lemma slot_bytes_set_header:
  "length hdr = 12 \<Longrightarrow> slot_bytes ti (set_header pg hdr) s = slot_bytes ti pg s"
  by (simp add: slot_bytes_def set_header_def add.commute)

lemma slot_bytes_update_other:
  assumes "s \<noteq> s'"
  shows "slot_bytes ti (pg[12 + s * record_size ti := v]) s' = slot_bytes ti pg s'"
proof (cases "s < s'")
  case True
  have le: "12 + s * record_size ti + record_size ti \<le> 12 + s' * record_size ti"
    using slot_offsets [OF True] .
  show ?thesis
  proof (cases "record_size ti = 0")
    case True
    then show ?thesis by (simp add: slot_bytes_def)
  next
    case False
    then have "12 + s * record_size ti < 12 + s' * record_size ti" using le by linarith
    then have "drop (12 + s' * record_size ti) (pg[12 + s * record_size ti := v]) =
               drop (12 + s' * record_size ti) pg"
      by (rule drop_update_cancel)
    then show ?thesis by (simp only: slot_bytes_def)
  qed
next
  case False
  then have lt: "s' < s" using assms by simp
  have le: "12 + s' * record_size ti + record_size ti \<le> 12 + s * record_size ti"
    using slot_offsets [OF lt] .
  then have le0: "12 + s' * record_size ti \<le> 12 + s * record_size ti" by linarith
  have le1: "record_size ti \<le> 12 + s * record_size ti - (12 + s' * record_size ti)"
    using le by linarith
  have "drop (12 + s' * record_size ti) (pg[12 + s * record_size ti := v]) =
        (drop (12 + s' * record_size ti) pg)
          [12 + s * record_size ti - (12 + s' * record_size ti) := v]"
    using le0 by (rule drop_update_swap)
  then have "slot_bytes ti (pg[12 + s * record_size ti := v]) s' =
        take (record_size ti) ((drop (12 + s' * record_size ti) pg)
          [12 + s * record_size ti - (12 + s' * record_size ti) := v])"
    by (simp only: slot_bytes_def)
  also have "\<dots> = take (record_size ti) (drop (12 + s' * record_size ti) pg)"
    using le1 by (rule take_update_cancel)
  finally show ?thesis by (simp only: slot_bytes_def)
qed

lemma slot_bytes_update_same:
  assumes "12 + s * record_size ti < length pg" and "1 \<le> record_size ti"
  shows "take 1 (slot_bytes ti (pg[12 + s * record_size ti := v]) s) = [v]"
proof -
  have "drop (12 + s * record_size ti) (pg[12 + s * record_size ti := v]) =
        v # drop (Suc (12 + s * record_size ti)) pg"
    using assms(1) by (simp add: drop_update_swap Cons_nth_drop_Suc [symmetric] upd_conv_take_nth_drop)
  then show ?thesis using assms(2) by (simp add: slot_bytes_def min_def)
qed

lemma find_free_slot_Some:
  "find_free_slot bm = Some s \<longleftrightarrow> s < 10 \<and> \<not> bit bm s \<and> (\<forall>k. k < s \<longrightarrow> bit bm k)"
  by (auto simp: find_free_slot_def MAX_RECORDS_PER_PAGE_def find_Some_iff
      and_exp_eq_0_iff_not_bit)

lemma find_free_slot_None:
  "find_free_slot bm = None \<longleftrightarrow> (\<forall>s<10. bit bm s)"
  by (auto simp: find_free_slot_def MAX_RECORDS_PER_PAGE_def find_None_iff
      and_exp_eq_0_iff_not_bit)

subsection \<open>The allocation loop of create\_record\<close>

lemma fresh_page_write:
  assumes "length h = 12" and "length hdr = 12" and "12 \<le> off"
  shows "set_header (slice_assign (set_header (replicate 4096 0) h) off rd) hdr =
         set_header (slice_assign (replicate 4096 0) off rd) hdr"
proof -
  have z: "replicate 4096 (0::byte) = replicate 12 0 @ replicate 4084 0"
    by (simp add: replicate_add [symmetric])
  have f: "set_header (replicate 4096 0) h = h @ replicate 4084 (0::byte)"
    by (simp add: set_header_def)
  have "drop 12 (slice_assign (h @ replicate 4084 0) off rd) =
        drop 12 (slice_assign (replicate 12 0 @ replicate 4084 (0::byte)) off rd)"
    using assms(1,3) by (simp add: slice_assign_def)
  then show ?thesis by (simp add: set_header_def f z [symmetric])
qed

lemma alloc_pages_step:
  assumes p: "p < 100"
  shows "alloc_pages a type_name ti rd p =
     (case find_free_slot (page_bitmap a type_name p) of
        Some s \<Rightarrow>
          (case create_page_header (int p) (page_count a type_name p + 1)
                  (page_bitmap a type_name p OR push_bit s 1) of
             Inl e \<Rightarrow> (Inl e, a)
           | Inr hdr \<Rightarrow>
               (Inr True,
                save_page a type_name p
                  (set_header (slice_assign (page_bytes a type_name p)
                                 (12 + s * record_size ti) rd) hdr)))
      | None \<Rightarrow>
          if p + 1 \<ge> 100 then (Inr False, a)
          else alloc_pages a type_name ti rd (p + 1))"
proof (cases "page_of a type_name p")
  case (Some pg)
  then show ?thesis
    by (subst alloc_pages.simps)
       (simp add: load_page_page_of page_bitmap_def page_count_def page_bytes_def
          MAX_PAGES_PER_FILE_def Let_def split: option.splits sum.splits)
next
  case None
  have h0: "create_page_header (int p) 0 0 = Inr (le_bytes4 p @ le_bytes4 0 @ le_bytes4 0)"
    using p create_page_header_ok [of "int p" 0 0] by simp
  have l0: "length (le_bytes4 p @ le_bytes4 0 @ le_bytes4 0) = 12" by simp
  have w: "\<And>s hdr n bm. create_page_header (int p) n bm = Inr hdr \<Longrightarrow>
         set_header (slice_assign (set_header (replicate 4096 0)
             (le_bytes4 p @ le_bytes4 0 @ le_bytes4 0)) (12 + s * record_size ti) rd) hdr =
         set_header (slice_assign (replicate 4096 0) (12 + s * record_size ti) rd) hdr"
    using fresh_page_write [OF l0 header_fields(1)] by simp
  show ?thesis
    using None
    by (subst alloc_pages.simps)
       (auto simp add: load_page_page_of page_bitmap_def page_count_def page_bytes_def
          MAX_PAGES_PER_FILE_def PAGE_SIZE_def Let_def h0 w split: option.splits sum.splits)
qed

lemma alloc_pages_effect:
  "100 - p = n \<Longrightarrow> p < 100 \<Longrightarrow>
   (alloc_pages a type_name ti rd p = (Inr False, a) \<and>
    (\<forall>q. p \<le> q \<and> q < 100 \<longrightarrow> find_free_slot (page_bitmap a type_name q) = None)) \<or>
   (\<exists>q s. p \<le> q \<and> q < 100 \<and>
      (\<forall>q'. p \<le> q' \<and> q' < q \<longrightarrow> find_free_slot (page_bitmap a type_name q') = None) \<and>
      find_free_slot (page_bitmap a type_name q) = Some s \<and>
      alloc_pages a type_name ti rd p = write_record a type_name ti rd q s)"
proof (induction n arbitrary: p)
  case 0
  then show ?case by simp
next
  case (Suc n)
  show ?case
  proof (cases "find_free_slot (page_bitmap a type_name p)")
    case (Some s)
    have "alloc_pages a type_name ti rd p = write_record a type_name ti rd p s"
      using Some by (simp add: alloc_pages_step [OF Suc.prems(2)] write_record_def)
    then show ?thesis using Some Suc.prems(2) by - (rule disjI2, rule exI [of _ p], rule exI [of _ s], auto)
  next
    case None
    show ?thesis
    proof (cases "p + 1 \<ge> 100")
      case True
      then have only: "\<And>q. p \<le> q \<Longrightarrow> q < 100 \<Longrightarrow> q = p" by auto
      have e: "alloc_pages a type_name ti rd p = (Inr False, a)"
        using None True by (simp add: alloc_pages_step [OF Suc.prems(2)])
      have "\<forall>q. p \<le> q \<and> q < 100 \<longrightarrow> find_free_slot (page_bitmap a type_name q) = None"
        using only None by blast
      then show ?thesis using e by blast
    next
      case False
      then have p1: "p + 1 < 100" and n: "100 - (p + 1) = n" using Suc.prems by simp_all
      have st: "alloc_pages a type_name ti rd p = alloc_pages a type_name ti rd (p + 1)"
        using None False by (simp add: alloc_pages_step [OF Suc.prems(2)])
      have cover: "\<And>q. p \<le> q \<Longrightarrow> q = p \<or> p + 1 \<le> q" by auto
      from Suc.IH [OF n p1] show ?thesis
      proof
        assume h: "alloc_pages a type_name ti rd (p + 1) = (Inr False, a) \<and>
          (\<forall>q. p + 1 \<le> q \<and> q < 100 \<longrightarrow> find_free_slot (page_bitmap a type_name q) = None)"
        have "\<forall>q. p \<le> q \<and> q < 100 \<longrightarrow> find_free_slot (page_bitmap a type_name q) = None"
          using h None cover by blast
        then show ?thesis using h st by simp
      next
        assume "\<exists>q s. p + 1 \<le> q \<and> q < 100 \<and>
          (\<forall>q'. p + 1 \<le> q' \<and> q' < q \<longrightarrow> find_free_slot (page_bitmap a type_name q') = None) \<and>
          find_free_slot (page_bitmap a type_name q) = Some s \<and>
          alloc_pages a type_name ti rd (p + 1) = write_record a type_name ti rd q s"
        then obtain q s where q: "p + 1 \<le> q" "q < 100"
          and b: "\<forall>q'. p + 1 \<le> q' \<and> q' < q \<longrightarrow> find_free_slot (page_bitmap a type_name q') = None"
          and f: "find_free_slot (page_bitmap a type_name q) = Some s"
          and w: "alloc_pages a type_name ti rd (p + 1) = write_record a type_name ti rd q s"
          by blast
        have b': "\<forall>q'. p \<le> q' \<and> q' < q \<longrightarrow> find_free_slot (page_bitmap a type_name q') = None"
          using b None cover by blast
        have "p \<le> q" using q(1) by simp
        then show ?thesis using q(2) b' f w st by - (rule disjI2, rule exI [of _ q], rule exI [of _ s], auto)
      qed
    qed
  qed
qed

lemma alloc_pages_first_free:
  assumes first: "\<forall>q'<q. find_free_slot (page_bitmap a type_name q') = None"
    and free: "find_free_slot (page_bitmap a type_name q) = Some s"
    and q: "q < 100"
  shows "alloc_pages a type_name ti rd 0 = write_record a type_name ti rd q s"
proof -
  from alloc_pages_effect [of 0 100 a type_name ti rd]
  consider
    (full) "\<forall>q. 0 \<le> q \<and> q < 100 \<longrightarrow> find_free_slot (page_bitmap a type_name q) = None"
  | (found) q2 s2 where "q2 < 100"
      "\<forall>q'. 0 \<le> q' \<and> q' < q2 \<longrightarrow> find_free_slot (page_bitmap a type_name q') = None"
      "find_free_slot (page_bitmap a type_name q2) = Some s2"
      "alloc_pages a type_name ti rd 0 = write_record a type_name ti rd q2 s2"
    by auto
  then show ?thesis
  proof cases
    case full
    then show ?thesis using free q by simp
  next
    case found
    have "\<not> q2 < q" using first found(3) by auto
    moreover have "\<not> q < q2" using found(2) free by auto
    ultimately have "q2 = q" by simp
    then show ?thesis using found(3,4) free by simp
  qed
qed

lemma create_record_run:
  assumes "map_of (catalog a) type_name = Some ti"
    and "length vals = length (type_fields ti)"
    and "validate_values (zip (type_fields ti) vals)"
    and "find_primary_key_value a type_name vals = Inr key"
    and "search_record_internal a type_name key = Inr None"
    and "serialize_record a type_name vals = Inr rd"
    and "\<forall>q'<q. find_free_slot (page_bitmap a type_name q') = None"
    and "find_free_slot (page_bitmap a type_name q) = Some s"
    and "q < 100"
  shows "create_record a type_name vals = write_record a type_name ti rd q s"
  using assms(1-6) alloc_pages_first_free [OF assms(7-9), of ti rd]
  by (simp add: create_record_def)

lemma create_record_unchanged:
  assumes "create_record a type_name vals = (r, a')" and "r \<noteq> Inr True"
  shows "a' = a"
proof -
  have w: "\<And>ti rd q s. write_record a type_name ti rd q s = (r, a') \<Longrightarrow> a' = a"
    using assms(2) by (auto simp: write_record_def split: sum.splits)
  have al: "\<And>ti rd. alloc_pages a type_name ti rd 0 = (r, a') \<Longrightarrow> a' = a"
    using alloc_pages_effect [of 0 100 a type_name] w by (metis prod.inject zero_less_numeral diff_zero)
  show ?thesis
    using assms(1) al
    by (auto simp: create_record_def split: option.splits if_splits sum.splits)
qed

lemma create_record_True:
  assumes "create_record a type_name vals = (Inr True, a')"
  obtains ti key rd q s where
    "map_of (catalog a) type_name = Some ti"
    "length vals = length (type_fields ti)"
    "validate_values (zip (type_fields ti) vals)"
    "find_primary_key_value a type_name vals = Inr key"
    "search_record_internal a type_name key = Inr None"
    "serialize_record a type_name vals = Inr rd"
    "\<forall>q'<q. find_free_slot (page_bitmap a type_name q') = None"
    "find_free_slot (page_bitmap a type_name q) = Some s"
    "q < 100"
    "write_record a type_name ti rd q s = (Inr True, a')"
proof -
  from assms obtain ti key rd where
    c: "map_of (catalog a) type_name = Some ti"
    "length vals = length (type_fields ti)"
    "validate_values (zip (type_fields ti) vals)"
    "find_primary_key_value a type_name vals = Inr key"
    "search_record_internal a type_name key = Inr None"
    "serialize_record a type_name vals = Inr rd"
    and al: "alloc_pages a type_name ti rd 0 = (Inr True, a')"
    by (auto simp: create_record_def split: option.splits if_splits sum.splits)
  from alloc_pages_effect [of 0 100 a type_name ti rd] al
  obtain q s where "q < 100"
      "\<forall>q'. 0 \<le> q' \<and> q' < q \<longrightarrow> find_free_slot (page_bitmap a type_name q') = None"
      "find_free_slot (page_bitmap a type_name q) = Some s"
      "alloc_pages a type_name ti rd 0 = write_record a type_name ti rd q s"
    by auto
  then show ?thesis using that [OF c, of q s] al by simp
qed

subsection \<open>The page written by create\_record\<close>

lemma find_free_slot_zero: "find_free_slot 0 = Some 0"
  by (simp add: find_free_slot_Some)

lemma full_page_present:
  "find_free_slot (page_bitmap a type_name q) = None \<Longrightarrow> page_of a type_name q \<noteq> None"
  by (cases "page_of a type_name q") (simp_all add: page_bitmap_def find_free_slot_zero)

lemma page_bytes_length:
  "whole_pages a type_name \<Longrightarrow> length (page_bytes a type_name q) = 4096"
  by (auto simp: page_bytes_def whole_pages_length split: option.splits)

lemma written_page_shape:
  assumes lp: "length pb = 4096" and lh: "length hdr = 12"
    and lrd: "length rd = rs" and s: "s < 10" and fit: "12 + 10 * rs \<le> 4096"
  shows "set_header (slice_assign pb (12 + s * rs) rd) hdr =
           hdr @ take (s * rs) (drop 12 pb) @ rd @ drop (12 + s * rs + rs) pb"
    and "length (set_header (slice_assign pb (12 + s * rs) rd) hdr) = 4096"
proof -
  have b: "12 + s * rs + rs \<le> 4096" using slot_in_page [OF s fit] .
  have t: "drop 12 (take (12 + s * rs) pb) = take (s * rs) (drop 12 pb)"
    by (simp add: drop_take)
  have l: "length (take (12 + s * rs) pb) = 12 + s * rs" using b lp by simp
  show "set_header (slice_assign pb (12 + s * rs) rd) hdr =
           hdr @ take (s * rs) (drop 12 pb) @ rd @ drop (12 + s * rs + rs) pb"
    using l t lrd by (simp add: set_header_def slice_assign_def)
  have "length (slice_assign pb (12 + s * rs) rd) = 4096"
    using length_slice_assign [of "12 + s * rs" rd pb] b lp lrd by simp
  then show "length (set_header (slice_assign pb (12 + s * rs) rd) hdr) = 4096"
    using lh by (simp add: length_set_header)
qed

lemma write_record_pages:
  assumes wp: "whole_pages a type_name"
    and lrd: "length rd = record_size ti" and fit: "12 + 10 * record_size ti \<le> 4096"
    and first: "\<forall>q'<q. find_free_slot (page_bitmap a type_name q') = None"
    and free: "find_free_slot (page_bitmap a type_name q) = Some s"
    and w: "write_record a type_name ti rd q s = (Inr True, a')"
  shows "page_of a' type_name q' =
           (if q' = q
            then Some (le_bytes4 q @ le_bytes4 (nat (page_count a type_name q + 1)) @
                       le_bytes4 (nat (page_bitmap a type_name q OR 2 ^ s)) @
                       take (s * record_size ti) (drop 12 (page_bytes a type_name q)) @ rd @
                       drop (12 + s * record_size ti + record_size ti) (page_bytes a type_name q))
            else page_of a type_name q')"
    and "whole_pages a' type_name"
    and "catalog a' = catalog a"
    and "\<forall>path. path \<noteq> type_name @ ''.dat'' \<longrightarrow> disk a' path = disk a path"
proof -
  from w obtain hdr where
    h: "create_page_header (int q) (page_count a type_name q + 1)
          (page_bitmap a type_name q OR push_bit s 1) = Inr hdr"
    and a': "a' = save_page a type_name q
              (set_header (slice_assign (page_bytes a type_name q)
                             (12 + s * record_size ti) rd) hdr)"
    by (auto simp: write_record_def split: sum.splits)
  have s: "s < 10" using free by (simp add: find_free_slot_Some)
  have lh: "length hdr = 12" using header_fields(1) [OF h] .
  have hd: "hdr = le_bytes4 q @ le_bytes4 (nat (page_count a type_name q + 1)) @
                  le_bytes4 (nat (page_bitmap a type_name q OR 2 ^ s))"
    using create_page_header_Inr [OF h] by (simp add: push_bit_of_1)
  have lp: "length (page_bytes a type_name q) = 4096" using wp by (rule page_bytes_length)
  note sh = written_page_shape [OF lp lh lrd s fit]
  have prev: "\<forall>q'<q. page_of a type_name q' \<noteq> None"
    using first full_page_present by blast
  note sp = save_page_page_of [OF wp sh(2) prev]
  show "page_of a' type_name q' =
           (if q' = q
            then Some (le_bytes4 q @ le_bytes4 (nat (page_count a type_name q + 1)) @
                       le_bytes4 (nat (page_bitmap a type_name q OR 2 ^ s)) @
                       take (s * record_size ti) (drop 12 (page_bytes a type_name q)) @ rd @
                       drop (12 + s * record_size ti + record_size ti) (page_bytes a type_name q))
            else page_of a type_name q')"
  proof -
    have "page_of a' type_name q' =
            (if q' = q
             then Some (set_header (slice_assign (page_bytes a type_name q)
                          (12 + s * record_size ti) rd) hdr)
             else page_of a type_name q')"
      unfolding a' by (rule sp(1))
    then show ?thesis unfolding sh(1) unfolding hd by simp
  qed
  show "whole_pages a' type_name" unfolding a' by (rule sp(2))
  show "catalog a' = catalog a" unfolding a' by simp
  show "\<forall>path. path \<noteq> type_name @ ''.dat'' \<longrightarrow> disk a' path = disk a path"
    unfolding a' by (simp add: save_page_other_files)
qed

lemma serialize_record_shape:
  assumes "map_of (catalog a) type_name = Some ti"
    and "length vals = length (type_fields ti)"
    and "validate_values (zip (type_fields ti) vals)"
    and "serialize_record a type_name vals = Inr rd"
  shows "length rd = calculate_record_size (type_fields ti)" and "take 1 rd = [1]"
proof -
  have s: "serialize_fields (type_fields ti) 0 vals [1] = Inr rd"
    using assms(1,4) by (simp add: serialize_record_def)
  from serialize_fields_shape [OF _ assms(2,3) s]
  show "length rd = calculate_record_size (type_fields ti)" and "take 1 rd = [1]"
    by (simp_all add: calculate_record_size_width)
qed

text \<open>
  C6, amended. Let the record fit (ten records fit into a page after the header) and the
  data file be absent or a whole number of pages. Then every successful
  \<^verbatim>\<open>create_record\<close> writes the encoded record into the first page \<open>q\<close>, counting from 0
  and taking a page not on disk as all zero, that has a free slot, at the lowest unset
  bit \<open>s\<close> of its bitmap: the page persisted is the header with page number \<open>q\<close>, the
  count plus one and the bitmap with bit \<open>s\<close> set, then the old bytes up to offset
  \<open>12 + s * record_size\<close>, the record, and the old bytes after it. Every other page and
  every other file is as before.
\<close>

theorem create_record_placement:
  assumes "create_record a type_name vals = (Inr True, a')"
    and "map_of (catalog a) type_name = Some ti"
    and "record_fits ti"
    and "whole_pages a type_name"
  shows "\<exists>q s rd.
           serialize_record a type_name vals = Inr rd \<and> q < 100 \<and> s < 10 \<and>
           (\<forall>q'<q. \<forall>k<10. bit (page_bitmap a type_name q') k) \<and>
           \<not> bit (page_bitmap a type_name q) s \<and>
           (\<forall>k. k < s \<longrightarrow> bit (page_bitmap a type_name q) k) \<and>
           page_of a' type_name q =
             Some (le_bytes4 q @ le_bytes4 (nat (page_count a type_name q + 1)) @
                   le_bytes4 (nat (page_bitmap a type_name q OR 2 ^ s)) @
                   take (s * record_size ti) (drop 12 (page_bytes a type_name q)) @ rd @
                   drop (12 + s * record_size ti + record_size ti)
                     (page_bytes a type_name q)) \<and>
           (\<forall>q'. q' \<noteq> q \<longrightarrow> page_of a' type_name q' = page_of a type_name q') \<and>
           catalog a' = catalog a \<and>
           (\<forall>path. path \<noteq> type_name @ ''.dat'' \<longrightarrow> disk a' path = disk a path)"
proof (rule create_record_True [OF assms(1)])
  fix ti' key rd q s
  assume c: "map_of (catalog a) type_name = Some ti'"
    and l: "length vals = length (type_fields ti')"
    and v: "validate_values (zip (type_fields ti') vals)"
    and ser: "serialize_record a type_name vals = Inr rd"
    and first: "\<forall>q'<q. find_free_slot (page_bitmap a type_name q') = None"
    and free: "find_free_slot (page_bitmap a type_name q) = Some s"
    and q: "q < 100"
    and w: "write_record a type_name ti' rd q s = (Inr True, a')"
  have ti: "ti' = ti" using c assms(2) by simp
  have lrd: "length rd = record_size ti"
    using serialize_record_shape(1) [OF c l v ser] assms(3) by (simp add: ti record_fits_def)
  have fit: "12 + 10 * record_size ti \<le> 4096" using assms(3) by (simp add: record_fits_def)
  note wr = write_record_pages [OF assms(4) lrd fit first free w [unfolded ti]]
  have s: "s < 10" "\<not> bit (page_bitmap a type_name q) s"
    "\<forall>k. k < s \<longrightarrow> bit (page_bitmap a type_name q) k"
    using free by (simp_all add: find_free_slot_Some)
  have f: "\<forall>q'<q. \<forall>k<10. bit (page_bitmap a type_name q') k"
    using first by (simp add: find_free_slot_None)
  have pq: "page_of a' type_name q =
             Some (le_bytes4 q @ le_bytes4 (nat (page_count a type_name q + 1)) @
                   le_bytes4 (nat (page_bitmap a type_name q OR 2 ^ s)) @
                   take (s * record_size ti) (drop 12 (page_bytes a type_name q)) @ rd @
                   drop (12 + s * record_size ti + record_size ti)
                     (page_bytes a type_name q))"
    using wr(1) [of q] by simp
  have po: "\<forall>q'. q' \<noteq> q \<longrightarrow> page_of a' type_name q' = page_of a type_name q'"
    using wr(1) by simp
  show ?thesis
    by (rule exI [of _ q], rule exI [of _ s], rule exI [of _ rd])
       (intro conjI ser q s f pq po wr(3) wr(4))
qed

subsection \<open>Runs on small files\<close>

lemma page_of_absent: "disk a (type_name @ ''.dat'') = None \<Longrightarrow> page_of a type_name q = None"
  by (simp add: page_of_def)

lemma search_pages_absent:
  assumes "disk a (type_name @ ''.dat'') = None"
  shows "100 - p = n \<Longrightarrow> search_pages a type_name ti key p = Inr None"
proof (induction n arbitrary: p)
  case 0
  then show ?case by (subst search_pages.simps) (simp add: MAX_PAGES_PER_FILE_def)
next
  case (Suc n)
  then have n: "100 - (p + 1) = n" by simp
  show ?case
    using Suc.IH [OF n]
    by (subst search_pages.simps)
       (simp add: MAX_PAGES_PER_FILE_def load_page_page_of page_of_absent [OF assms])
qed

lemma search_absent:
  "disk a (type_name @ ''.dat'') = None \<Longrightarrow> search_record_internal a type_name key = Inr None"
  by (simp add: search_record_internal_def search_pages_absent [of a type_name 0 100]
      split: option.splits)

lemma save_first_page:
  assumes "disk a (type_name @ ''.dat'') = None \<or>
           (\<exists>c. disk a (type_name @ ''.dat'') = Some c \<and> length c = 4096)"
    and "length pd = 4096"
  shows "save_page a type_name 0 pd = a\<lparr>disk := (disk a)(type_name @ ''.dat'' \<mapsto> pd)\<rparr>"
  using assms
  by (auto simp: save_page_def get_data_file_path_def PAGE_SIZE_def Let_def slice_assign_def)

lemma py_int_5: "py_int ''5'' = Inr 5"
  by (simp add: py_int_def strip_def is_space_def ord_def parse_unsigned_def is_digit_def
      digits_value_def)

lemma ids_catalog:
  "map_of (catalog ids_archive) ''T'' =
     Some \<lparr>type_fields = [(''id'', ''int'')], primary_key_order = 1, record_size = 5\<rparr>"
  by (simp add: ids_archive_def)

lemma five_catalog: "catalog five_archive = catalog ids_archive"
  by (simp add: five_archive_def)

lemma serialize_5:
  "catalog a = catalog ids_archive \<Longrightarrow> serialize_record a ''T'' [''5''] = Inr [1, 5, 0, 0, 0]"
  by (simp add: serialize_record_def ids_catalog py_index_def py_int_5 pack_i_5)

lemma serialize_05:
  "catalog a = catalog ids_archive \<Longrightarrow> serialize_record a ''T'' [''05''] = Inr [1, 5, 0, 0, 0]"
  by (simp add: serialize_record_def ids_catalog py_index_def py_int_05 pack_i_5)

lemma create_five: "create_record ids_archive ''T'' [''5''] = (Inr True, five_archive)"
proof -
  let ?ti = "\<lparr>type_fields = [(''id'', ''int'')], primary_key_order = 1, record_size = 5\<rparr>"
  have d: "disk ids_archive (''T'' @ ''.dat'') = None" by (simp add: ids_archive_def)
  have v: "validate_values (zip (type_fields ?ti) [''5''])"
    by (simp add: is_valid_int_value_def py_int_5)
  have k: "find_primary_key_value ids_archive ''T'' [''5''] = Inr ''5''"
    by (simp add: find_primary_key_value_def ids_catalog py_index_def)
  have b: "page_bitmap ids_archive ''T'' 0 = 0" "page_count ids_archive ''T'' 0 = 0"
    "page_bytes ids_archive ''T'' 0 = replicate 4096 0"
    by (simp_all add: page_bitmap_def page_count_def page_bytes_def page_of_absent [OF d])
  have h: "create_page_header 0 1 1 = Inr [0, 0, 0, 0, 1, 0, 0, 0, 1, 0, 0, 0]"
    by (simp add: create_page_header_def pack_I_def le_bytes4_def)
  have pd: "set_header (slice_assign (replicate 4096 0) 12 [1, 5, 0, 0, 0])
              [0, 0, 0, 0, 1, 0, 0, 0, 1, 0, 0, 0] = five_page"
    by (simp add: set_header_def slice_assign_def five_page_def)
  have l: "length five_page = 4096" by (simp add: five_page_def)
  have "create_record ids_archive ''T'' [''5''] =
        write_record ids_archive ''T'' ?ti [1, 5, 0, 0, 0] 0 0"
    by (rule create_record_run [OF ids_catalog _ v k search_absent [OF d] serialize_5])
       (simp_all add: b find_free_slot_zero)
  also have "\<dots> = (Inr True, save_page ids_archive ''T'' 0 five_page)"
    by (simp add: write_record_def b h pd)
  also have "save_page ids_archive ''T'' 0 five_page = five_archive"
    using save_first_page [of ids_archive "''T''" five_page] d l
    by (simp add: five_archive_def ids_archive_def)
  finally show ?thesis .
qed

theorem create_record_placement_witness:
  "create_record ids_archive ''T'' [''5''] = (Inr True, five_archive) \<and>
   record_fits \<lparr>type_fields = [(''id'', ''int'')], primary_key_order = 1, record_size = 5\<rparr> \<and>
   whole_pages ids_archive ''T'' \<and>
   (\<exists>q s rd. serialize_record ids_archive ''T'' [''5''] = Inr rd \<and> q < 100 \<and> s < 10 \<and>
      page_of five_archive ''T'' q =
        Some (le_bytes4 q @ le_bytes4 (nat (page_count ids_archive ''T'' q + 1)) @
              le_bytes4 (nat (page_bitmap ids_archive ''T'' q OR 2 ^ s)) @
              take (s * 5) (drop 12 (page_bytes ids_archive ''T'' q)) @ rd @
              drop (12 + s * 5 + 5) (page_bytes ids_archive ''T'' q)))"
proof -
  let ?ti = "\<lparr>type_fields = [(''id'', ''int'')], primary_key_order = 1, record_size = 5\<rparr>"
  have f: "record_fits ?ti"
    by (simp add: record_fits_def calculate_record_size_def)
  have w: "whole_pages ids_archive ''T''"
    by (simp add: whole_pages_def ids_archive_def)
  from create_record_placement [OF create_five ids_catalog f w]
  obtain q s rd where
    "serialize_record ids_archive ''T'' [''5''] = Inr rd" "q < 100" "s < 10"
    "page_of five_archive ''T'' q =
        Some (le_bytes4 q @ le_bytes4 (nat (page_count ids_archive ''T'' q + 1)) @
              le_bytes4 (nat (page_bitmap ids_archive ''T'' q OR 2 ^ s)) @
              take (s * record_size ?ti) (drop 12 (page_bytes ids_archive ''T'' q)) @ rd @
              drop (12 + s * record_size ?ti + record_size ?ti) (page_bytes ids_archive ''T'' q))"
    by (elim exE conjE)
  then have "\<exists>q s rd. serialize_record ids_archive ''T'' [''5''] = Inr rd \<and> q < 100 \<and> s < 10 \<and>
      page_of five_archive ''T'' q =
        Some (le_bytes4 q @ le_bytes4 (nat (page_count ids_archive ''T'' q + 1)) @
              le_bytes4 (nat (page_bitmap ids_archive ''T'' q OR 2 ^ s)) @
              take (s * 5) (drop 12 (page_bytes ids_archive ''T'' q)) @ rd @
              drop (12 + s * 5 + 5) (page_bytes ids_archive ''T'' q))"
    by (intro exI [of _ q] exI [of _ s] exI [of _ rd]) simp
  then show ?thesis using create_five f w by (intro conjI)
qed

subsection \<open>The effect of delete\_record\<close>

lemma delete_slots_effect:
  "delete_slots a type_name ti key p pg n bm slots = Inr (Some a') \<Longrightarrow>
   \<exists>s\<in>set slots. bit bm s \<and>
     (\<exists>hdr. create_page_header (int p) (n - 1) (bm AND NOT (push_bit s 1)) = Inr hdr \<and>
            12 + s * record_size ti < length pg \<and>
            a' = save_page a type_name p (set_header (pg[12 + s * record_size ti := 0]) hdr))"
proof (induction slots)
  case Nil
  then show ?case by simp
next
  case (Cons s slots)
  show ?case
  proof (cases "bit bm s")
    case False
    then have "delete_slots a type_name ti key p pg n bm slots = Inr (Some a')"
      using Cons.prems by (simp add: and_exp_eq_0_iff_not_bit)
    then show ?thesis using Cons.IH by auto
  next
    case True
    show ?thesis
    proof (cases "match_slot a type_name ti pg s key")
      case (Inl e)
      then show ?thesis using Cons.prems True by (simp add: and_exp_eq_0_iff_not_bit)
    next
      case (Inr m)
      show ?thesis
      proof (cases m)
        case None
        then have "delete_slots a type_name ti key p pg n bm slots = Inr (Some a')"
          using Cons.prems True Inr by (simp add: and_exp_eq_0_iff_not_bit)
        then show ?thesis using Cons.IH by auto
      next
        case (Some v)
        then show ?thesis using Cons.prems True Inr
          by (auto simp add: and_exp_eq_0_iff_not_bit Let_def split: if_splits sum.splits)
      qed
    qed
  qed
qed

lemma delete_pages_effect:
  "100 - p = n \<Longrightarrow> delete_pages a type_name ti key p = (r, a') \<Longrightarrow>
   (a' = a \<and> r \<noteq> Inr True) \<or>
   (r = Inr True \<and>
    (\<exists>q pg s. q < 100 \<and> s < 10 \<and> page_of a type_name q = Some pg \<and>
       bit (header_bitmap pg) s \<and> erase_record a type_name ti q pg s a'))"
proof (induction n arbitrary: p)
  case 0
  then have "\<not> p < MAX_PAGES_PER_FILE" by (simp add: MAX_PAGES_PER_FILE_def)
  then have "delete_pages a type_name ti key p = (Inr False, a)"
    by (subst delete_pages.simps) simp
  then show ?case using 0 by simp
next
  case (Suc n)
  then have p: "p < 100" and n: "100 - (p + 1) = n" by simp_all
  note IH = Suc.IH [OF n]
  show ?case
  proof (cases "page_of a type_name p")
    case None
    then have "delete_pages a type_name ti key p = delete_pages a type_name ti key (p + 1)"
      using p by (subst delete_pages.simps) (simp add: MAX_PAGES_PER_FILE_def load_page_page_of)
    then show ?thesis using IH Suc.prems(2) by simp
  next
    case (Some pg)
    show ?thesis
    proof (cases "header_count pg = 0")
      case True
      then have "delete_pages a type_name ti key p = delete_pages a type_name ti key (p + 1)"
        using p Some
        by (subst delete_pages.simps) (simp add: MAX_PAGES_PER_FILE_def load_page_page_of)
      then show ?thesis using IH Suc.prems(2) by simp
    next
      case False
      define ds where "ds = delete_slots a type_name ti key p pg (header_count pg)
                              (header_bitmap pg) [0..<10]"
      have st: "delete_pages a type_name ti key p =
            (case ds of
               Inl e \<Rightarrow> (Inl e, a)
             | Inr (Some a') \<Rightarrow> (Inr True, a')
             | Inr None \<Rightarrow> delete_pages a type_name ti key (p + 1))"
        using p Some False
        by (subst delete_pages.simps)
           (simp add: MAX_PAGES_PER_FILE_def MAX_RECORDS_PER_PAGE_def load_page_page_of ds_def)
      show ?thesis
      proof (cases ds)
        case (Inl e)
        then show ?thesis using st Suc.prems(2) by auto
      next
        case (Inr m)
        show ?thesis
        proof (cases m)
          case None
          then show ?thesis using st Inr IH Suc.prems(2) by simp
        next
          case (Some a2)
          then have r: "r = Inr True" "a' = a2" using st Inr Suc.prems(2) by simp_all
          from delete_slots_effect [of a type_name ti key p pg "header_count pg"
              "header_bitmap pg" "[0..<10]" a2] Inr Some
          obtain s where "s < 10" "bit (header_bitmap pg) s"
            "erase_record a type_name ti p pg s a2"
            by (auto simp: ds_def erase_record_def)
          then show ?thesis using r p \<open>page_of a type_name p = Some pg\<close> by blast
        qed
      qed
    qed
  qed
qed

lemma delete_record_effect:
  assumes "delete_record a type_name key = (r, a')"
  shows "(a' = a \<and> r \<noteq> Inr True) \<or>
   (r = Inr True \<and>
    (\<exists>ti q pg s. map_of (catalog a) type_name = Some ti \<and> q < 100 \<and> s < 10 \<and>
       page_of a type_name q = Some pg \<and>
       bit (header_bitmap pg) s \<and> erase_record a type_name ti q pg s a'))"
proof (cases "map_of (catalog a) type_name")
  case None
  then show ?thesis using assms by (auto simp add: delete_record_def)
next
  case (Some ti)
  then have "delete_pages a type_name ti key 0 = (r, a')"
    using assms by (simp add: delete_record_def)
  from delete_pages_effect [OF _ this, of 100] show ?thesis using Some by auto
qed

subsection \<open>The page invariant\<close>

lemma filter_one_more:
  assumes "distinct xs" and "s \<in> set xs" and "\<not> P s" and "\<And>x. Q x = (P x \<or> x = s)"
  shows "length (filter Q xs) = length (filter P xs) + 1"
  using assms(1,2)
proof (induction xs)
  case Nil
  then show ?case by simp
next
  case (Cons x xs)
  show ?case
  proof (cases "x = s")
    case True
    then have "s \<notin> set xs" using Cons.prems(1) by simp
    then have fe: "filter Q xs = filter P xs"
      using assms(4) by (intro filter_cong) auto
    have Qs: "Q s" using assms(4) by simp
    show ?thesis unfolding True using Qs assms(3) fe by simp
  next
    case False
    then have "s \<in> set xs" "distinct xs" using Cons.prems by simp_all
    then have ih: "length (filter Q xs) = length (filter P xs) + 1" using Cons.IH by simp
    have "Q x = P x" using False assms(4) by simp
    then show ?thesis using ih by simp
  qed
qed

lemma set_bits_add:
  fixes bm :: int
  assumes "s < 10" and "\<not> bit bm s"
  shows "length (filter (bit (bm OR 2 ^ s)) [0..<10]) = length (filter (bit bm) [0..<10]) + 1"
proof (rule filter_one_more [where s = s])
  show "distinct [0..<10]" by simp
  show "s \<in> set [0..<10]" using assms(1) by simp
  show "\<not> bit bm s" by (rule assms(2))
  show "\<And>x. bit (bm OR 2 ^ s) x = (bit bm x \<or> x = s)"
    by (auto simp: bit_or_iff bit_exp_iff)
qed

lemma set_bits_remove:
  fixes bm :: int
  assumes "s < 10" and "bit bm s"
  shows "length (filter (bit bm) [0..<10]) =
         length (filter (bit (bm AND NOT (2 ^ s))) [0..<10]) + 1"
proof (rule filter_one_more [where s = s])
  show "distinct [0..<10]" by simp
  show "s \<in> set [0..<10]" using assms(1) by simp
  show "\<not> bit (bm AND NOT (2 ^ s)) s" by (simp add: bit_and_iff bit_not_iff bit_exp_iff)
  show "\<And>x. bit bm x = (bit (bm AND NOT (2 ^ s)) x \<or> x = s)"
    using assms(2) by (auto simp: bit_and_iff bit_not_iff bit_exp_iff)
qed

lemma page_consistent_iff:
  "page_consistent ti pg \<longleftrightarrow>
     header_count pg = int (length (filter (bit (header_bitmap pg)) [0..<10])) \<and>
     (\<forall>s<10. bit (header_bitmap pg) s = (take 1 (slot_bytes ti pg s) = [1]))"
  by (auto simp add: page_consistent_def list_all_iff)

lemma le_value_zeros: "le_value (replicate n 0) = 0"
  by (induction n) (simp_all add: le_value_def)

lemma zero_page_consistent: "page_consistent ti (replicate n 0)"
proof -
  have c: "header_count (replicate n 0) = 0"
    by (simp add: header_count_def le_value_zeros)
  have b: "header_bitmap (replicate n 0) = 0"
    by (simp add: header_bitmap_def le_value_zeros)
  have "take 1 (slot_bytes ti (replicate n 0) s) \<noteq> [1]" for s
    by (cases "record_size ti") (auto simp: slot_bytes_def take_Suc_conv_app_nth min_def
        split: if_splits)
  then show ?thesis by (simp add: page_consistent_iff c b)
qed

lemma written_page_consistent:
  assumes pc: "page_consistent ti pb" and lp: "length pb = 4096"
    and fit: "12 + 10 * record_size ti \<le> 4096"
    and lrd: "length rd = record_size ti" and rd1: "take 1 rd = [1]"
    and s: "s < 10" and free: "\<not> bit (header_bitmap pb) s"
    and h: "create_page_header p (header_count pb + 1) (header_bitmap pb OR 2 ^ s) = Inr hdr"
  shows "page_consistent ti (set_header (slice_assign pb (12 + s * record_size ti) rd) hdr)"
proof -
  let ?pd = "set_header (slice_assign pb (12 + s * record_size ti) rd) hdr"
  note hf = header_fields [OF h]
  have fit': "12 + 10 * record_size ti \<le> length pb" using fit lp by simp
  have sl: "slot_bytes ti ?pd k = (if k = s then rd else slot_bytes ti pb k)" if "k < 10" for k
    using slot_bytes_slice_assign [OF lrd s that fit'] by (simp add: slot_bytes_set_header hf(1))
  have c: "header_count ?pd = int (length (filter (bit (header_bitmap ?pd)) [0..<10]))"
    using pc set_bits_add [OF s free] by (simp add: hf(2,3) page_consistent_iff)
  have b: "bit (header_bitmap ?pd) k = (take 1 (slot_bytes ti ?pd k) = [1])" if "k < 10" for k
  proof (cases "k = s")
    case True
    then show ?thesis using sl [OF that] rd1 by (simp add: hf(3) bit_or_iff bit_exp_iff)
  next
    case False
    then show ?thesis using sl [OF that] pc that
      by (simp add: hf(3) bit_or_iff bit_exp_iff page_consistent_iff)
  qed
  show ?thesis using c b by (simp add: page_consistent_iff)
qed

lemma erased_page_consistent:
  assumes pc: "page_consistent ti pg"
    and rs: "1 \<le> record_size ti"
    and s: "s < 10" and set: "bit (header_bitmap pg) s"
    and off: "12 + s * record_size ti < length pg"
    and h: "create_page_header p (header_count pg - 1) (header_bitmap pg AND NOT (2 ^ s)) = Inr hdr"
  shows "page_consistent ti (set_header (pg[12 + s * record_size ti := 0]) hdr)"
proof -
  let ?pd = "set_header (pg[12 + s * record_size ti := 0]) hdr"
  note hf = header_fields [OF h]
  have c: "header_count ?pd = int (length (filter (bit (header_bitmap ?pd)) [0..<10]))"
    using pc set_bits_remove [OF s set] by (simp add: hf(2,3) page_consistent_iff)
  have b: "bit (header_bitmap ?pd) k = (take 1 (slot_bytes ti ?pd k) = [1])" if "k < 10" for k
  proof (cases "k = s")
    case True
    have "take 1 (slot_bytes ti ?pd s) = [0]"
      using slot_bytes_update_same [OF off rs] by (simp add: slot_bytes_set_header hf(1))
    then show ?thesis using True by (simp add: hf(3) bit_and_iff bit_not_iff bit_exp_iff)
  next
    case False
    then have "slot_bytes ti ?pd k = slot_bytes ti pg k"
      using slot_bytes_update_other [of s k ti pg 0] by (simp add: slot_bytes_set_header hf(1))
    then show ?thesis using False pc that
      by (simp add: hf(3) bit_and_iff bit_not_iff bit_exp_iff page_consistent_iff)
  qed
  show ?thesis using c b by (simp add: page_consistent_iff)
qed

lemma page_bytes_header:
  "header_count (page_bytes a type_name q) = page_count a type_name q"
  "header_bitmap (page_bytes a type_name q) = page_bitmap a type_name q"
  by (simp_all add: page_bytes_def page_count_def page_bitmap_def header_count_def
      header_bitmap_def le_value_zeros split: option.splits)

lemma pages_below_present:
  assumes wp: "whole_pages a type_name" and pg: "page_of a type_name p = Some pg"
  shows "\<forall>q<p. page_of a type_name q \<noteq> None"
proof (intro allI impI)
  fix q assume q: "q < p"
  from pg obtain c where c: "disk a (type_name @ ''.dat'') = Some c"
    and l: "\<not> length (page_at c p) < 12"
    by (auto simp: page_of_page_at split: option.splits if_splits)
  from wp c have "length c mod 4096 = 0" by (simp add: whole_pages_def)
  then obtain k where k: "length c = k * 4096" by (auto simp: mod_eq_0_iff_dvd)
  have "p < k"
  proof (rule ccontr)
    assume "\<not> p < k"
    then have "length c \<le> p * 4096" using k by simp
    then have "page_at c p = []" by (rule page_at_beyond)
    then show False using l by simp
  qed
  then have "q < k" using q by simp
  then have "length (page_at c q) = 4096" using page_at_whole [OF k] by simp
  then show "page_of a type_name q \<noteq> None" using c by (simp add: page_of_page_at)
qed

lemma blank_file_pages:
  assumes "blank_file a type_name"
  shows "whole_pages a type_name"
    and "page_of a type_name p = Some pg \<Longrightarrow> page_consistent ti pg"
proof -
  show "whole_pages a type_name"
    using assms by (auto simp: blank_file_def whole_pages_def split: option.splits)
  assume pg: "page_of a type_name p = Some pg"
  then obtain c where c: "disk a (type_name @ ''.dat'') = Some c" and e: "pg = page_at c p"
    by (auto simp: page_of_page_at split: option.splits if_splits)
  have "c = replicate (length c) 0" using assms c by (simp add: blank_file_def)
  then have "page_at c p = take 4096 (drop (p * 4096) (replicate (length c) 0))"
    by (simp add: page_at_def)
  then have "\<exists>n. pg = replicate n 0" using e by (auto simp: min_def)
  then show "page_consistent ti pg" using zero_page_consistent by blast
qed

lemma page_bytes_consistent:
  assumes "whole_pages a type_name"
    and "\<forall>p pg. page_of a type_name p = Some pg \<longrightarrow> page_consistent ti pg"
  shows "page_consistent ti (page_bytes a type_name q)"
  using assms(2) zero_page_consistent [of ti 4096]
  by (auto simp: page_bytes_def split: option.splits)

lemma reachable_invariant:
  assumes b: "blank_file a0 type_name"
    and c: "map_of (catalog a0) type_name = Some ti"
    and fit: "record_fits ti"
    and r: "reachable a0 type_name a"
  shows "catalog a = catalog a0 \<and> whole_pages a type_name \<and>
         (\<forall>p pg. page_of a type_name p = Some pg \<longrightarrow> page_consistent ti pg)"
  using r
proof (induction rule: reachable.induct)
  case reach_start
  show ?case using blank_file_pages [OF b] by blast
next
  case (reach_create a vals r a')
  then have ca: "catalog a = catalog a0" and wp: "whole_pages a type_name"
    and pc: "\<forall>p pg. page_of a type_name p = Some pg \<longrightarrow> page_consistent ti pg"
    by simp_all
  show ?case
  proof (cases "r = Inr True")
    case False
    then have "a' = a" using create_record_unchanged [OF reach_create.hyps(2)] by simp
    then show ?thesis using ca wp pc by simp
  next
    case True
    have cr: "create_record a type_name vals = (Inr True, a')"
      using reach_create.hyps(2) True by simp
    show ?thesis
    proof (rule create_record_True [OF cr])
      fix ti' key rd q s
      assume c': "map_of (catalog a) type_name = Some ti'"
        and l: "length vals = length (type_fields ti')"
        and v: "validate_values (zip (type_fields ti') vals)"
        and ser: "serialize_record a type_name vals = Inr rd"
        and first: "\<forall>q'<q. find_free_slot (page_bitmap a type_name q') = None"
        and free: "find_free_slot (page_bitmap a type_name q) = Some s"
        and w: "write_record a type_name ti' rd q s = (Inr True, a')"
      have ti: "ti' = ti" using c c' ca by simp
      have lrd: "length rd = record_size ti"
        using serialize_record_shape(1) [OF c' l v ser] fit by (simp add: ti record_fits_def)
      have rd1: "take 1 rd = [1]" using serialize_record_shape(2) [OF c' l v ser] .
      have fit': "12 + 10 * record_size ti \<le> 4096" using fit by (simp add: record_fits_def)
      from w obtain hdr where
        h: "create_page_header (int q) (page_count a type_name q + 1)
              (page_bitmap a type_name q OR push_bit s 1) = Inr hdr"
        and a': "a' = save_page a type_name q
                  (set_header (slice_assign (page_bytes a type_name q)
                                 (12 + s * record_size ti) rd) hdr)"
        by (auto simp: write_record_def ti split: sum.splits)
      let ?pb = "page_bytes a type_name q"
      let ?pd = "set_header (slice_assign ?pb (12 + s * record_size ti) rd) hdr"
      have s: "s < 10" "\<not> bit (page_bitmap a type_name q) s"
        using free by (simp_all add: find_free_slot_Some)
      have lp: "length ?pb = 4096" using wp by (rule page_bytes_length)
      have h': "create_page_header (int q) (header_count ?pb + 1)
                  (header_bitmap ?pb OR 2 ^ s) = Inr hdr"
        using h by (simp add: page_bytes_header push_bit_of_1)
      have s': "\<not> bit (header_bitmap ?pb) s" using s(2) by (simp add: page_bytes_header)
      have pdc: "page_consistent ti ?pd"
        by (rule written_page_consistent
              [OF page_bytes_consistent [OF wp pc] lp fit' lrd rd1 s(1) s' h'])
      have lpd: "length ?pd = 4096"
        by (rule written_page_shape(2) [OF lp header_fields(1) [OF h] lrd s(1) fit'])
      have prev: "\<forall>q'<q. page_of a type_name q' \<noteq> None"
        using first full_page_present by blast
      note sp = save_page_page_of [OF wp lpd prev]
      have "\<forall>p pg. page_of a' type_name p = Some pg \<longrightarrow> page_consistent ti pg"
        unfolding a' sp(1) using pdc pc by auto
      moreover have "whole_pages a' type_name" unfolding a' by (rule sp(2))
      moreover have "catalog a' = catalog a0" unfolding a' using ca by simp
      ultimately show ?thesis by simp
    qed
  qed
next
  case (reach_delete a key r a')
  then have ca: "catalog a = catalog a0" and wp: "whole_pages a type_name"
    and pc: "\<forall>p pg. page_of a type_name p = Some pg \<longrightarrow> page_consistent ti pg"
    by simp_all
  from delete_record_effect [OF reach_delete.hyps(2)]
  show ?case
  proof
    assume "a' = a \<and> r \<noteq> Inr True"
    then show ?thesis using ca wp pc by simp
  next
    assume "r = Inr True \<and>
      (\<exists>ti q pg s. map_of (catalog a) type_name = Some ti \<and> q < 100 \<and> s < 10 \<and>
         page_of a type_name q = Some pg \<and>
         bit (header_bitmap pg) s \<and> erase_record a type_name ti q pg s a')"
    then obtain ti' q pg s where c': "map_of (catalog a) type_name = Some ti'"
      and s: "s < 10" and pg: "page_of a type_name q = Some pg"
      and set: "bit (header_bitmap pg) s" and er: "erase_record a type_name ti' q pg s a'"
      by blast
    have ti: "ti' = ti" using c c' ca by simp
    from er obtain hdr where
      h: "create_page_header (int q) (header_count pg - 1)
            (header_bitmap pg AND NOT (push_bit s 1)) = Inr hdr"
      and off: "12 + s * record_size ti < length pg"
      and a': "a' = save_page a type_name q (set_header (pg[12 + s * record_size ti := 0]) hdr)"
      by (auto simp: erase_record_def ti)
    let ?pd = "set_header (pg[12 + s * record_size ti := 0]) hdr"
    have rs: "1 \<le> record_size ti"
      using fit calculate_record_size_width [of "type_fields ti"] by (simp add: record_fits_def)
    have h': "create_page_header (int q) (header_count pg - 1)
                (header_bitmap pg AND NOT (2 ^ s)) = Inr hdr"
      using h by (simp add: push_bit_of_1)
    have pgc: "page_consistent ti pg" using pc pg by blast
    have pdc: "page_consistent ti ?pd"
      by (rule erased_page_consistent [OF pgc rs s set off h'])
    have lpg: "length pg = 4096" using whole_pages_length [OF wp pg] .
    have lpd: "length ?pd = 4096"
      using lpg header_fields(1) [OF h] by (simp add: length_set_header)
    note sp = save_page_page_of [OF wp lpd pages_below_present [OF wp pg]]
    have "\<forall>p pg. page_of a' type_name p = Some pg \<longrightarrow> page_consistent ti pg"
      unfolding a' sp(1) using pdc pc by auto
    moreover have "whole_pages a' type_name" unfolding a' by (rule sp(2))
    moreover have "catalog a' = catalog a0" unfolding a' using ca by simp
    ultimately show ?thesis by simp
  qed
qed

text \<open>
  C9, amended. Let the record fit (ten records fit into a page after the header) and
  the data file start absent or as whole pages of zero bytes. Then in every state that
  any sequence of \<^verbatim>\<open>create_record\<close> and \<^verbatim>\<open>delete_record\<close> operations on the type reaches,
  every page of the file satisfies \<open>page_consistent\<close>: the record count equals the
  number of set bits among the bitmap bits 0..9, and for every slot 0..9 the bitmap bit
  is set if and only if the validity byte of the slot is 1.
\<close>

theorem reachable_pages_consistent:
  assumes "blank_file a0 type_name"
    and "map_of (catalog a0) type_name = Some ti"
    and "record_fits ti"
    and "reachable a0 type_name a"
    and "page_of a type_name p = Some pg"
  shows "page_consistent ti pg"
  using reachable_invariant [OF assms(1-4)] assms(5) by blast

lemma five_page_0: "page_of five_archive ''T'' 0 = Some five_page"
  by (simp add: page_of_page_at page_at_def five_archive_def five_page_def)

theorem reachable_pages_consistent_witness:
  "blank_file ids_archive ''T'' \<and>
   record_fits \<lparr>type_fields = [(''id'', ''int'')], primary_key_order = 1, record_size = 5\<rparr> \<and>
   reachable ids_archive ''T'' five_archive \<and>
   page_of five_archive ''T'' 0 = Some five_page \<and>
   page_consistent \<lparr>type_fields = [(''id'', ''int'')], primary_key_order = 1, record_size = 5\<rparr>
     five_page"
proof -
  let ?ti = "\<lparr>type_fields = [(''id'', ''int'')], primary_key_order = 1, record_size = 5\<rparr>"
  have b: "blank_file ids_archive ''T''" by (simp add: blank_file_def ids_archive_def)
  have f: "record_fits ?ti" by (simp add: record_fits_def calculate_record_size_def)
  have r: "reachable ids_archive ''T'' five_archive"
    by (rule reach_create [OF reach_start create_five])
  show ?thesis
    using reachable_pages_consistent [OF b ids_catalog f r five_page_0] b f r five_page_0
    by simp
qed

end
